theory Spec2Isabelle
  imports Main "HOL-Library.Signed_Division"
begin

section \<open>The job table of tsh.c\<close>

text \<open>
  The model follows \<^verbatim>\<open>src/tsh.c\<close>. The \<^verbatim>\<open>int\<close> and \<^verbatim>\<open>pid_t\<close> fields of the
  table are modelled as integers without a bound: the only arithmetic on them is
  \<^verbatim>\<open>nextjid++\<close> and \<^verbatim>\<open>maxjid(jobs) + 1\<close>, whose overflow is undefined behaviour
  in C and needs more than \<open>2^31\<close> job ids. The numbers read from the command line
  with \<^verbatim>\<open>atoi\<close> are cut to 32 bits as the C library does. C strings are \<open>string\<close>s
  without NUL characters.
\<close>

text \<open>The job states \<^verbatim>\<open>UNDEF 0, FG 1, BG 2, ST 3\<close>.\<close>

datatype jstate = UNDEF | FG | BG | ST

text \<open>\<^verbatim>\<open>struct Job\<close>.\<close>

record job =
  pid :: int
  jid :: int
  state :: jstate
  cmdline :: string

definition MAXJOBS :: nat where
  "MAXJOBS = 16"

text \<open>
  What the shell does to the outside world, in program order: buffered \<^verbatim>\<open>printf\<close>
  output, reentrant \<^verbatim>\<open>write\<close> output through \<^verbatim>\<open>sio_puts\<close>, signals sent
  with \<^verbatim>\<open>kill(target, sig)\<close>, and the message of \<^verbatim>\<open>unix_error\<close> (whose
  \<^verbatim>\<open>strerror\<close> suffix belongs to the operating system).
\<close>

datatype event = Printf string | Sio string | Kill int nat | UnixError string

text \<open>
  Where the control loop stands. \<open>Idle\<close>: between two calls of \<^verbatim>\<open>eval\<close>.
  \<open>Found k fg\<close>: inside \<^verbatim>\<open>do_bgfg\<close>, \<^verbatim>\<open>currjob = &jobs[k]\<close> has been
  looked up. \<open>Conted k fg\<close>: the test for \<^verbatim>\<open>ST\<close> (and the \<^verbatim>\<open>SIGCONT\<close>) is
  done. \<open>FgSet k\<close>: \<^verbatim>\<open>currjob->state = FG\<close> is done, \<^verbatim>\<open>waitfg(currjob->pid)\<close>
  is next. \<open>BgSet k\<close>: \<^verbatim>\<open>currjob->state = BG\<close> is done, the \<^verbatim>\<open>printf\<close> is
  next. \<open>WaitFg p\<close>: inside the loop of \<^verbatim>\<open>waitfg(p)\<close>. \<open>Exited\<close>: the shell
  process has ended.
\<close>

datatype ctl = Idle | Found nat bool | Conted nat bool | FgSet nat | BgSet nat
  | WaitFg int | Exited

text \<open>
  The globals \<^verbatim>\<open>jobs\<close>, \<^verbatim>\<open>nextjid\<close> and \<^verbatim>\<open>verbose\<close>, the effects so far
  and the position of the control loop.
\<close>

record shell =
  jobs :: "job list"
  nextjid :: int
  verbose :: bool
  trace :: "event list"
  pc :: ctl

definition emit :: "event \<Rightarrow> shell \<Rightarrow> shell" where
  "emit e s = s\<lparr>trace := trace s @ [e]\<rparr>"

text \<open>
  The loops \<^verbatim>\<open>for (i = 0; i < MAXJOBS; i++) if (cond(jobs[i])) return ...\<close> of
  \<^verbatim>\<open>addjob\<close>, \<^verbatim>\<open>deletejob\<close>, \<^verbatim>\<open>fgpid\<close>, \<^verbatim>\<open>getjobpid\<close>,
  \<^verbatim>\<open>getjobjid\<close> and \<^verbatim>\<open>pid2jid\<close>: the first index whose slot satisfies the
  condition. A pointer \<^verbatim>\<open>&jobs[i]\<close> is the index \<open>i\<close>, \<^verbatim>\<open>NULL\<close> is \<open>None\<close>.
\<close>

fun find_slot :: "(job \<Rightarrow> bool) \<Rightarrow> job list \<Rightarrow> nat option" where
  "find_slot P [] = None"
| "find_slot P (j # js) = (if P j then Some 0 else map_option Suc (find_slot P js))"

definition clearjob :: "job \<Rightarrow> job" where
  "clearjob j = j\<lparr>pid := 0, jid := 0, state := UNDEF, cmdline := []\<rparr>"

definition initjobs :: "job list \<Rightarrow> job list" where
  "initjobs js = map clearjob js"

definition maxjid :: "job list \<Rightarrow> int" where
  "maxjid js = fold (\<lambda>j m. if jid j > m then jid j else m) js 0"

text \<open>\<^verbatim>\<open>printf("%d", n)\<close> of the C library.\<close>

definition digit_char :: "nat \<Rightarrow> char" where
  "digit_char d = char_of (48 + d)"

fun dec_nat :: "nat \<Rightarrow> string" where
  "dec_nat n = (if n < 10 then [digit_char n] else dec_nat (n div 10) @ [digit_char (n mod 10)])"

declare dec_nat.simps [simp del]

definition fmt_d :: "int \<Rightarrow> string" where
  "fmt_d i = (if i < 0 then CHR ''-'' # dec_nat (nat (- i)) else dec_nat (nat i))"

definition addjob :: "int \<Rightarrow> jstate \<Rightarrow> string \<Rightarrow> shell \<Rightarrow> bool \<times> shell" where
  "addjob p st cmd s =
     (if p < 1 then (False, s)
      else case find_slot (\<lambda>j. pid j = 0) (jobs s) of
        Some i \<Rightarrow>
          (let j = (jobs s ! i)\<lparr>pid := p, state := st, jid := nextjid s, cmdline := cmd\<rparr>;
               n = nextjid s + 1;
               s' = s\<lparr>jobs := (jobs s)[i := j],
                      nextjid := (if n > int MAXJOBS then 1 else n)\<rparr>
           in (True,
               if verbose s
               then emit (Printf (''Added job ['' @ fmt_d (jid j) @ ''] '' @ fmt_d (pid j)
                                   @ '' '' @ cmdline j @ ''\<newline>'')) s'
               else s'))
      | None \<Rightarrow> (False, emit (Printf ''Tried to create too many jobs\<newline>'') s))"

definition deletejob :: "int \<Rightarrow> shell \<Rightarrow> bool \<times> shell" where
  "deletejob p s =
     (if p < 1 then (False, s)
      else case find_slot (\<lambda>j. pid j = p) (jobs s) of
        Some i \<Rightarrow>
          (let js = (jobs s)[i := clearjob (jobs s ! i)]
           in (True, s\<lparr>jobs := js, nextjid := maxjid js + 1\<rparr>))
      | None \<Rightarrow> (False, s))"

definition fgpid :: "job list \<Rightarrow> int" where
  "fgpid js = (case find_slot (\<lambda>j. state j = FG) js of Some i \<Rightarrow> pid (js ! i) | None \<Rightarrow> 0)"

definition getjobpid :: "job list \<Rightarrow> int \<Rightarrow> nat option" where
  "getjobpid js p = (if p < 1 then None else find_slot (\<lambda>j. pid j = p) js)"

definition getjobjid :: "job list \<Rightarrow> int \<Rightarrow> nat option" where
  "getjobjid js i = (if i < 1 then None else find_slot (\<lambda>j. jid j = i) js)"

definition pid2jid :: "job list \<Rightarrow> int \<Rightarrow> int" where
  "pid2jid js p =
     (if p < 1 then 0
      else case find_slot (\<lambda>j. pid j = p) js of Some i \<Rightarrow> jid (js ! i) | None \<Rightarrow> 0)"

text \<open>
  The static array \<^verbatim>\<open>jobs[MAXJOBS]\<close> is zero-initialised; \<^verbatim>\<open>main\<close> calls
  \<^verbatim>\<open>initjobs\<close> on it before the read/eval loop. \<^verbatim>\<open>nextjid\<close> starts at 1.
\<close>

definition zero_job :: job where
  "zero_job = \<lparr>pid = 0, jid = 0, state = UNDEF, cmdline = []\<rparr>"

definition init_shell :: "bool \<Rightarrow> shell" where
  "init_shell v = \<lparr>jobs = initjobs (replicate MAXJOBS zero_job), nextjid = 1, verbose = v,
                   trace = [], pc = Idle\<rparr>"


section \<open>Reentrant output (the sio functions)\<close>

text \<open>
  \<^verbatim>\<open>sio_ltoa\<close>: the \<^verbatim>\<open>do ... while ((v /= b) > 0)\<close> loop writes the digits
  least significant first, with C's truncating \<^verbatim>\<open>%\<close> and \<^verbatim>\<open>/\<close>, and
  \<^verbatim>\<open>sio_reverse\<close> turns them around. For \<open>b < 2\<close> the C loop divides by zero
  or never ends; the model stops after one digit there (the only caller passes 10).
\<close>

function sio_ltoa_loop :: "int \<Rightarrow> int \<Rightarrow> string" where
  "sio_ltoa_loop v b =
     (let c = v smod b;
          ch = (if c < 10 then char_of (c + 48) else char_of (c - 10 + 97));
          v' = v sdiv b
      in if v' > 0 \<and> 1 < b then ch # sio_ltoa_loop v' b else [ch])"
  by pat_completeness auto
termination
proof (relation "measure (\<lambda>(v, b). nat v)")
  show "wf (measure (\<lambda>(v, b). nat v))" by simp
next
  fix v b :: int and c ch v'
  assume "v' = v sdiv b" and "0 < v' \<and> 1 < b"
  then have pos: "0 < v sdiv b" and b: "1 < b" by simp_all
  have v: "0 < v"
  proof (rule ccontr)
    assume "\<not> 0 < v"
    then have "v sdiv b \<le> 0" using b
      by (simp add: signed_divide_int_def sgn_if mult_le_0_iff pos_imp_zdiv_nonneg_iff)
    with pos show False by simp
  qed
  then have "v sdiv b = v div b" using b
    by (simp add: signed_divide_int_def sgn_if)
  moreover have "v div b < v" using v b by (rule int_div_less_self)
  ultimately show "((v', b), (v, b)) \<in> measure (\<lambda>(v, b). nat v)"
    using v \<open>v' = v sdiv b\<close> by simp
qed

declare sio_ltoa_loop.simps [simp del]

text \<open>
  \<^verbatim>\<open>sio_reverse\<close>: the loop \<^verbatim>\<open>for (i = 0, j = sio_strlen(s) - 1; i < j; i++, j--)\<close>
  that swaps \<^verbatim>\<open>s[i]\<close> and \<^verbatim>\<open>s[j]\<close>.
\<close>

function sio_reverse_loop :: "nat \<Rightarrow> nat \<Rightarrow> string \<Rightarrow> string" where
  "sio_reverse_loop i j s =
     (if i < j then sio_reverse_loop (i + 1) (j - 1) (s[i := s ! j, j := s ! i]) else s)"
  by pat_completeness auto
termination
  by (relation "measure (\<lambda>(i, j, s). j - i)") auto

declare sio_reverse_loop.simps [simp del]

definition sio_reverse :: "string \<Rightarrow> string" where
  "sio_reverse s = sio_reverse_loop 0 (length s - 1) s"

definition sio_ltoa :: "int \<Rightarrow> int \<Rightarrow> string" where
  "sio_ltoa v b = sio_reverse (sio_ltoa_loop v b)"

definition sio_puts :: "string \<Rightarrow> shell \<Rightarrow> shell" where
  "sio_puts str s = emit (Sio str) s"

definition sio_putl :: "int \<Rightarrow> shell \<Rightarrow> shell" where
  "sio_putl v s = sio_puts (sio_ltoa v 10) s"

section \<open>Signals and the handlers\<close>

text \<open>The table \<^verbatim>\<open>signame\<close>; the entries of \<^verbatim>\<open>signame[NSIG]\<close> after these are NULL.\<close>

definition signame :: "string list" where
  "signame = [''Signal 0'', ''HUP'', ''INT'', ''QUIT'', ''ILL'', ''TRAP'', ''ABRT'', ''BUS'',
     ''FPE'', ''KILL'', ''USR1'', ''SEGV'', ''USR2'', ''PIPE'', ''ALRM'', ''TERM'', ''STKFLT'',
     ''CHLD'', ''CONT'', ''STOP'', ''TSTP'', ''TTIN'', ''TTOU'', ''URG'', ''XCPU'', ''XFSZ'',
     ''VTALRM'', ''PROF'', ''WINCH'', ''IO'', ''PWR'', ''Signal 31'']"

text \<open>The signal numbers of x86-64 Linux, the platform the table \<^verbatim>\<open>signame\<close> is for.\<close>

definition SIGINT :: nat where "SIGINT = 2"
definition SIGCONT :: nat where "SIGCONT = 18"
definition SIGTSTP :: nat where "SIGTSTP = 20"

text \<open>
  What \<^verbatim>\<open>waitpid(-1, &status, WNOHANG | WUNTRACED)\<close> reports of a child: exactly one
  of \<^verbatim>\<open>WIFEXITED\<close> (with the exit status), \<^verbatim>\<open>WIFSIGNALED\<close> (with
  \<^verbatim>\<open>WTERMSIG\<close>) and \<^verbatim>\<open>WIFSTOPPED\<close> (with \<^verbatim>\<open>WSTOPSIG\<close>) holds.
\<close>

datatype wstatus = WExited nat | WSignaled nat | WStopped nat

text \<open>
  One round of the loop of \<^verbatim>\<open>sigchld_handler\<close>, for the child \<open>p\<close> that
  \<^verbatim>\<open>waitpid\<close> returned. \<open>None\<close> is the crash of the shell on a NULL pointer:
  \<^verbatim>\<open>currjob->state = ST\<close> for a child that is not in the table, or
  \<^verbatim>\<open>sio_puts\<close> of a NULL entry of \<^verbatim>\<open>signame\<close>.
\<close>

definition sigchld_child :: "int \<Rightarrow> wstatus \<Rightarrow> shell \<Rightarrow> shell option" where
  "sigchld_child p w s =
     (let currjob = getjobpid (jobs s) p in
      case w of
        WExited _ \<Rightarrow> Some (snd (deletejob p s))
      | WSignaled sg \<Rightarrow>
          (let s1 = sio_puts ''Job ['' s;
               s2 = sio_putl (pid2jid (jobs s1) p) s1;
               s3 = sio_puts ''] ('' s2;
               s4 = sio_putl p s3;
               s5 = sio_puts '') terminated by signal SIGINT'' s4;
               s6 = sio_puts ''\<newline>'' s5
           in Some (snd (deletejob p s6)))
      | WStopped sg \<Rightarrow>
          (case currjob of
             None \<Rightarrow> None
           | Some k \<Rightarrow>
               (let s0 = s\<lparr>jobs := (jobs s)[k := (jobs s ! k)\<lparr>state := ST\<rparr>]\<rparr>;
                    s1 = sio_puts ''Job ['' s0;
                    s2 = sio_putl (pid2jid (jobs s1) p) s1;
                    s3 = sio_puts ''] ('' s2;
                    s4 = sio_putl p s3;
                    s5 = sio_puts '') stopped by signal SIG'' s4
                in if sg < length signame
                   then Some (sio_puts ''\<newline>'' (sio_puts (signame ! sg) s5))
                   else None)))"

text \<open>
  \<^verbatim>\<open>sigchld_handler\<close>: the argument lists what the successive calls of
  \<^verbatim>\<open>waitpid\<close> return; the loop ends with the first result that is not positive,
  or when no child is left to report.
\<close>

fun sigchld_handler :: "(int \<times> wstatus) list \<Rightarrow> shell \<Rightarrow> shell option" where
  "sigchld_handler [] s = Some s"
| "sigchld_handler ((p, w) # rest) s =
     (if p > 0
      then (case sigchld_child p w s of None \<Rightarrow> None | Some s' \<Rightarrow> sigchld_handler rest s')
      else Some s)"

definition sigint_handler :: "shell \<Rightarrow> shell" where
  "sigint_handler s = (let p = fgpid (jobs s) in if p \<noteq> 0 then emit (Kill (- p) SIGINT) s else s)"

definition sigtstp_handler :: "shell \<Rightarrow> shell" where
  "sigtstp_handler s = (let p = fgpid (jobs s) in if p \<noteq> 0 then emit (Kill (- p) SIGTSTP) s else s)"

definition sigquit_handler :: "shell \<Rightarrow> shell" where
  "sigquit_handler s = (sio_puts ''Terminating after receipt of SIGQUIT signal\<newline>'' s)\<lparr>pc := Exited\<rparr>"

definition unix_error :: "string \<Rightarrow> shell \<Rightarrow> shell" where
  "unix_error msg s = (emit (UnixError msg) s)\<lparr>pc := Exited\<rparr>"


section \<open>The control loop\<close>

text \<open>
  \<^verbatim>\<open>isdigit\<close>, \<^verbatim>\<open>isspace\<close> and \<^verbatim>\<open>atoi\<close> of the C library (C locale, x86-64
  Linux). \<^verbatim>\<open>atoi(s)\<close> is \<^verbatim>\<open>(int) strtol(s, NULL, 10)\<close>: \<^verbatim>\<open>strtol\<close> skips white
  space, reads an optional sign and the digits that follow, and returns their value, or
  \<^verbatim>\<open>LONG_MAX\<close> or \<^verbatim>\<open>LONG_MIN\<close> when the value is outside the 64 bits of
  \<^verbatim>\<open>long\<close>; the conversion to \<^verbatim>\<open>int\<close> keeps the low 32 bits. So
  \<^verbatim>\<open>atoi("4294967308")\<close> is 12 and \<^verbatim>\<open>atoi("4294967296")\<close> is 0.
\<close>

definition isdigit :: "char \<Rightarrow> bool" where
  "isdigit c = (48 \<le> (of_char c :: nat) \<and> (of_char c :: nat) \<le> 57)"

definition isspace :: "char \<Rightarrow> bool" where
  "isspace c = ((of_char c :: nat) = 32 \<or> (9 \<le> (of_char c :: nat) \<and> (of_char c :: nat) \<le> 13))"

fun atoi_digits :: "int \<Rightarrow> string \<Rightarrow> int" where
  "atoi_digits acc [] = acc"
| "atoi_digits acc (c # cs) =
     (if isdigit c then atoi_digits (acc * 10 + (of_char c - 48)) cs else acc)"

definition LONG_MAX :: int where
  "LONG_MAX = 2 ^ 63 - 1"

definition LONG_MIN :: int where
  "LONG_MIN = - (2 ^ 63)"

definition strtol :: "string \<Rightarrow> int" where
  "strtol str =
     (let v = (case dropWhile isspace str of
                 [] \<Rightarrow> 0
               | c # cs \<Rightarrow>
                   if c = CHR ''-'' then - atoi_digits 0 cs
                   else if c = CHR ''+'' then atoi_digits 0 cs
                   else atoi_digits 0 (c # cs))
      in if v > LONG_MAX then LONG_MAX else if v < LONG_MIN then LONG_MIN else v)"

definition long_to_int :: "int \<Rightarrow> int" where
  "long_to_int v = (v + 2 ^ 31) mod 2 ^ 32 - 2 ^ 31"

definition atoi :: "string \<Rightarrow> int" where
  "atoi str = long_to_int (strtol str)"

text \<open>
  \<^verbatim>\<open>waitfg\<close>: \<open>ok\<close> says whether \<^verbatim>\<open>sigemptyset\<close> succeeds. One round of
  the loop either returns (the control loop is \<open>Idle\<close> again: both callers return
  at once) or sleeps in \<^verbatim>\<open>sigsuspend\<close> until the next signal.
\<close>

definition waitfg_check :: "int \<Rightarrow> shell \<Rightarrow> shell" where
  "waitfg_check p s = (if fgpid (jobs s) \<noteq> p then s\<lparr>pc := Idle\<rparr> else s\<lparr>pc := WaitFg p\<rparr>)"

definition waitfg :: "bool \<Rightarrow> int \<Rightarrow> shell \<Rightarrow> shell" where
  "waitfg ok p s = (if \<not> ok then unix_error ''sigemptyset error'' s else waitfg_check p s)"

text \<open>
  \<^verbatim>\<open>do_bgfg\<close>, in the pieces between which a signal handler can run.
  \<open>argv\<close> is the argument vector without its closing NULL, so \<^verbatim>\<open>argv[1] == NULL\<close>
  is \<open>tl argv = []\<close>; \<^verbatim>\<open>builtin_cmd\<close> calls \<^verbatim>\<open>do_bgfg\<close> only with
  \<^verbatim>\<open>argv[0]\<close> equal to \<^verbatim>\<open>"fg"\<close> or \<^verbatim>\<open>"bg"\<close>.

  \<open>bgfg_resolve\<close>: lines 560 to 592, the message of the early return or the slot
  \<^verbatim>\<open>currjob\<close> points to.
\<close>

definition bgfg_resolve :: "string list \<Rightarrow> job list \<Rightarrow> string + nat" where
  "bgfg_resolve argv js =
     (case tl argv of
        [] \<Rightarrow> Inl (hd argv @ '' command requires PID or %jobid argument\<newline>'')
      | tok # _ \<Rightarrow>
          if take 1 tok = ''%'' then
            (if \<not> (case drop 1 tok of [] \<Rightarrow> False | d # _ \<Rightarrow> isdigit d)
             then Inl (hd argv @ '': argument must be a PID or %jobid\<newline>'')
             else case getjobjid js (atoi (drop 1 tok)) of
                    None \<Rightarrow> Inl (tok @ '': No such job\<newline>'')
                  | Some k \<Rightarrow> Inr k)
          else if atoi tok \<noteq> 0 then
            (case getjobpid js (atoi tok) of
               None \<Rightarrow> Inl (''('' @ tok @ ''): No such process\<newline>'')
             | Some k \<Rightarrow> Inr k)
          else Inl (hd argv @ '': argument must be a PID or %jobid\<newline>''))"

definition bgfg_begin :: "string list \<Rightarrow> shell \<Rightarrow> shell" where
  "bgfg_begin argv s =
     (case bgfg_resolve argv (jobs s) of
        Inl msg \<Rightarrow> emit (Printf msg) s
      | Inr k \<Rightarrow> s\<lparr>pc := Found k (hd argv = ''fg'')\<rparr>)"

text \<open>Lines 596 to 601; \<open>ok\<close> says whether \<^verbatim>\<open>kill\<close> succeeds.\<close>

definition bgfg_cont :: "nat \<Rightarrow> bool \<Rightarrow> bool \<Rightarrow> shell \<Rightarrow> shell" where
  "bgfg_cont k fg ok s =
     (if state (jobs s ! k) = ST then
        (let s1 = emit (Kill (- pid (jobs s ! k)) SIGCONT) s
         in if ok then s1\<lparr>pc := Conted k fg\<rparr> else unix_error ''kill call failed'' s1)
      else s\<lparr>pc := Conted k fg\<rparr>)"

text \<open>The assignments \<^verbatim>\<open>currjob->state = FG\<close> (line 607) and \<^verbatim>\<open>currjob->state = BG\<close>
  (line 615).\<close>

definition bgfg_set :: "nat \<Rightarrow> bool \<Rightarrow> shell \<Rightarrow> shell" where
  "bgfg_set k fg s =
     (if fg then s\<lparr>jobs := (jobs s)[k := (jobs s ! k)\<lparr>state := FG\<rparr>], pc := FgSet k\<rparr>
      else s\<lparr>jobs := (jobs s)[k := (jobs s ! k)\<lparr>state := BG\<rparr>], pc := BgSet k\<rparr>)"

text \<open>The \<^verbatim>\<open>printf\<close> of line 616.\<close>

definition bgfg_print :: "nat \<Rightarrow> shell \<Rightarrow> shell" where
  "bgfg_print k s =
     (let j = jobs s ! k
      in (emit (Printf (''['' @ fmt_d (pid2jid (jobs s) (pid j)) @ ''] ('' @ fmt_d (pid j)
                         @ '') '' @ cmdline j)) s)\<lparr>pc := Idle\<rparr>)"

text \<open>
  \<^verbatim>\<open>do_bgfg\<close> run without a signal in between, up to its return or to the
  \<^verbatim>\<open>sigsuspend\<close> of \<^verbatim>\<open>waitfg\<close>.
\<close>

definition do_bgfg :: "string list \<Rightarrow> bool \<Rightarrow> bool \<Rightarrow> shell \<Rightarrow> shell" where
  "do_bgfg argv kill_ok wait_ok s =
     (case bgfg_resolve argv (jobs s) of
        Inl msg \<Rightarrow> emit (Printf msg) s
      | Inr k \<Rightarrow>
          (let fg = (hd argv = ''fg'');
               s1 = bgfg_cont k fg kill_ok s
           in case pc s1 of
                Conted _ _ \<Rightarrow>
                  (let s2 = bgfg_set k fg s1
                   in if fg then waitfg wait_ok (pid (jobs s2 ! k)) s2 else bgfg_print k s2)
              | _ \<Rightarrow> s1))"

text \<open>\<^verbatim>\<open>listjobs\<close>: three \<^verbatim>\<open>printf\<close> calls for every slot with a pid.\<close>

definition state_num :: "jstate \<Rightarrow> int" where
  "state_num st = (case st of UNDEF \<Rightarrow> 0 | FG \<Rightarrow> 1 | BG \<Rightarrow> 2 | ST \<Rightarrow> 3)"

definition listjob :: "nat \<Rightarrow> job \<Rightarrow> event list" where
  "listjob i j =
     (if pid j \<noteq> 0 then
        [Printf (''['' @ fmt_d (jid j) @ ''] ('' @ fmt_d (pid j) @ '') ''),
         Printf (case state j of
                   BG \<Rightarrow> ''Running ''
                 | FG \<Rightarrow> ''Foreground ''
                 | ST \<Rightarrow> ''Stopped ''
                 | UNDEF \<Rightarrow> ''listjobs: Internal error: job['' @ fmt_d (int i) @ ''].state=''
                             @ fmt_d (state_num (state j)) @ '' ''),
         Printf (cmdline j)]
      else [])"

definition listjobs :: "shell \<Rightarrow> shell" where
  "listjobs s = s\<lparr>trace := trace s @ concat (map (\<lambda>(i, j). listjob i j) (enumerate 0 (jobs s)))\<rparr>"

text \<open>
  \<^verbatim>\<open>builtin_cmd\<close>: \<open>None\<close> is the result \<^verbatim>\<open>false\<close>. Of \<^verbatim>\<open>do_bgfg\<close> it
  runs the first piece; the control loop goes on from there.
\<close>

definition builtin_cmd :: "string list \<Rightarrow> shell \<Rightarrow> shell option" where
  "builtin_cmd argv s =
     (if hd argv = ''quit'' then Some (s\<lparr>pc := Exited\<rparr>)
      else if hd argv = ''jobs'' then Some (listjobs s)
      else if hd argv = ''bg'' then Some (bgfg_begin argv s)
      else if hd argv = ''fg'' then Some (bgfg_begin argv s)
      else None)"

text \<open>
  What the operating system answers inside \<^verbatim>\<open>eval\<close>: one of the three calls before
  \<^verbatim>\<open>fork\<close> fails, or \<^verbatim>\<open>fork\<close> returns \<open>p\<close> (-1 when it fails), and then
  whether \<^verbatim>\<open>sigprocmask(SIG_UNBLOCK)\<close> and the \<^verbatim>\<open>sigemptyset\<close> of
  \<^verbatim>\<open>waitfg\<close> succeed. A built-in command makes none of these calls and does not
  look at the answers.
\<close>

datatype oscalls = SigemptysetFails | SigaddsetFails | BlockFails | Forked int bool bool

text \<open>
  \<^verbatim>\<open>eval\<close> on the result of \<^verbatim>\<open>parseline\<close> (\<open>argv\<close> and \<open>bg\<close>). SIGCHLD is
  blocked from before \<^verbatim>\<open>fork\<close> until after \<^verbatim>\<open>addjob\<close>. With \<open>p = 0\<close> the
  process is the child, which replaces its image or exits.
\<close>

definition eval :: "string list \<Rightarrow> bool \<Rightarrow> string \<Rightarrow> oscalls \<Rightarrow> shell \<Rightarrow> shell" where
  "eval argv bg cmd os s =
     (if argv = [] then s
      else case builtin_cmd argv s of
        Some s' \<Rightarrow> s'
      | None \<Rightarrow>
         (case os of
            SigemptysetFails \<Rightarrow> unix_error ''sigemptyset error'' s
          | SigaddsetFails \<Rightarrow> unix_error ''sigaddset error'' s
          | BlockFails \<Rightarrow> unix_error ''sigprocmask error'' s
          | Forked p unblock_ok wait_ok \<Rightarrow>
              if p = 0 then s\<lparr>pc := Exited\<rparr>
              else if \<not> bg then
                (let s1 = snd (addjob p FG cmd s)
                 in if \<not> unblock_ok then unix_error ''sigprocmask error'' s1
                    else waitfg wait_ok p s1)
              else
                (let s1 = snd (addjob p BG cmd s)
                 in if \<not> unblock_ok then unix_error ''sigprocmask error'' s1
                    else emit (Printf (''['' @ fmt_d (pid2jid (jobs s1) p) @ ''] ('' @ fmt_d p
                                        @ '') '' @ cmd)) s1)))"

section \<open>Executions\<close>

text \<open>
  One step of the shell: the control loop reads and evaluates a command (\<open>Eval\<close>, only
  when it is \<open>Idle\<close>; the end of the input ends the shell as \<^verbatim>\<open>quit\<close> does), the control loop goes on by one piece (\<open>Tick\<close>, with the
  success of the system call of that piece), or a handler runs: \<open>Chld\<close> (with the
  children \<^verbatim>\<open>waitpid\<close> reports), \<open>Intr\<close>, \<open>Tstp\<close>, \<open>Quit\<close>. \<open>None\<close>: the
  step is not possible, or the shell crashes.

  The pieces of the control loop end before and after each assignment to the table that
  \<^verbatim>\<open>do_bgfg\<close> makes with SIGCHLD unblocked, and at each round of \<^verbatim>\<open>waitfg\<close>, so
  that a handler can run at each of these points. The lookup of \<^verbatim>\<open>do_bgfg\<close> is one
  piece: the handlers only clear slots and set states, so a lookup that a handler
  interrupts returns what an uninterrupted lookup returns at the moment it reads the slot
  it stops at.
\<close>

datatype action = Eval "string list" bool string oscalls | Tick bool
  | Chld "(int \<times> wstatus) list" | Intr | Tstp | Quit

definition tick :: "bool \<Rightarrow> shell \<Rightarrow> shell option" where
  "tick ok s =
     (case pc s of
        Idle \<Rightarrow> None
      | Found k fg \<Rightarrow> Some (bgfg_cont k fg ok s)
      | Conted k fg \<Rightarrow> Some (bgfg_set k fg s)
      | FgSet k \<Rightarrow> Some (waitfg ok (pid (jobs s ! k)) s)
      | BgSet k \<Rightarrow> Some (bgfg_print k s)
      | WaitFg p \<Rightarrow> Some (waitfg_check p s)
      | Exited \<Rightarrow> None)"

definition step :: "action \<Rightarrow> shell \<Rightarrow> shell option" where
  "step a s =
     (if pc s = Exited then None
      else case a of
        Eval argv bg cmd os \<Rightarrow> (if pc s = Idle then Some (eval argv bg cmd os s) else None)
      | Tick ok \<Rightarrow> tick ok s
      | Chld evs \<Rightarrow> sigchld_handler evs s
      | Intr \<Rightarrow> Some (sigint_handler s)
      | Tstp \<Rightarrow> Some (sigtstp_handler s)
      | Quit \<Rightarrow> Some (sigquit_handler s))"

fun run :: "action list \<Rightarrow> shell \<Rightarrow> shell option" where
  "run [] s = Some s"
| "run (a # as) s = (case step a s of None \<Rightarrow> None | Some s' \<Rightarrow> run as s')"

text \<open>Sequences of \<^verbatim>\<open>addjob\<close> and \<^verbatim>\<open>deletejob\<close> calls.\<close>

datatype tabop = Add int jstate string | Del int

fun apply_op :: "tabop \<Rightarrow> shell \<Rightarrow> shell" where
  "apply_op (Add p st cmd) s = snd (addjob p st cmd s)"
| "apply_op (Del p) s = snd (deletejob p s)"

definition run_ops :: "tabop list \<Rightarrow> shell \<Rightarrow> shell" where
  "run_ops ops s = fold apply_op ops s"
section \<open>The properties\<close>

text \<open>A slot is live when its pid is not 0.\<close>

definition live :: "job \<Rightarrow> bool" where
  "live j = (pid j \<noteq> 0)"

text \<open>A slot without a pid has no other field set either.\<close>

definition slot_ok :: "job \<Rightarrow> bool" where
  "slot_ok j = (pid j = 0 \<longrightarrow> jid j = 0 \<and> state j = UNDEF \<and> cmdline j = [])"

definition slots_ok :: "job list \<Rightarrow> bool" where
  "slots_ok js = list_all slot_ok js"

text \<open>The table after sixteen background jobs with the pids 1 to 16 were added.\<close>

definition full_shell :: shell where
  "full_shell = run_ops (map (\<lambda>p. Add p BG ''sleep 9 &\<newline>'') [1..16]) (init_shell False)"

text \<open>A table with one stopped job in its second slot and an emptied first slot.\<close>

definition demo_shell :: shell where
  "demo_shell = run_ops [Add 11 BG ''a\<newline>'', Add 12 ST ''b\<newline>'', Del 11] (init_shell False)"

text \<open>The pids and the job ids of the live slots, in slot order.\<close>

definition live_pids :: "job list \<Rightarrow> int list" where
  "live_pids js = map pid (filter live js)"

definition live_jids :: "job list \<Rightarrow> int list" where
  "live_jids js = map jid (filter live js)"

text \<open>
  \<open>pids_fresh ops s\<close>: running \<open>ops\<close> from \<open>s\<close>, no \<^verbatim>\<open>addjob\<close> is given a pid that
  a live slot holds at that moment.
\<close>

fun pids_fresh :: "tabop list \<Rightarrow> shell \<Rightarrow> bool" where
  "pids_fresh [] s = True"
| "pids_fresh (Add p st cmd # ops) s =
     (p \<notin> set (live_pids (jobs s)) \<and> pids_fresh ops (apply_op (Add p st cmd) s))"
| "pids_fresh (Del p # ops) s = pids_fresh ops (apply_op (Del p) s)"

text \<open>
  \<open>no_add_after_wrap w ops s\<close>: running \<open>ops\<close> from \<open>s\<close>, no \<^verbatim>\<open>addjob\<close> succeeds
  between an \<^verbatim>\<open>addjob\<close> that succeeds and leaves a job id of \<^verbatim>\<open>MAXJOBS\<close> or more
  in the table, and the next \<^verbatim>\<open>deletejob\<close> that succeeds. \<open>w\<close> says whether the
  last operation that succeeded was such an \<^verbatim>\<open>addjob\<close>.
\<close>

fun no_add_after_wrap :: "bool \<Rightarrow> tabop list \<Rightarrow> shell \<Rightarrow> bool" where
  "no_add_after_wrap w [] s = True"
| "no_add_after_wrap w (Add p st cmd # ops) s =
     (if fst (addjob p st cmd s)
      then \<not> w \<and> no_add_after_wrap (int MAXJOBS \<le> maxjid (jobs (snd (addjob p st cmd s)))) ops
                    (snd (addjob p st cmd s))
      else no_add_after_wrap w ops (snd (addjob p st cmd s)))"
| "no_add_after_wrap w (Del p # ops) s =
     no_add_after_wrap (w \<and> \<not> fst (deletejob p s)) ops (snd (deletejob p s))"

text \<open>The number of \<^verbatim>\<open>addjob\<close> calls of a sequence.\<close>

fun adds :: "tabop list \<Rightarrow> nat" where
  "adds [] = 0"
| "adds (Add p st cmd # ops) = Suc (adds ops)"
| "adds (Del p # ops) = adds ops"

text \<open>Seventeen \<^verbatim>\<open>addjob\<close> calls with the pids 1 to 17: the last one finds the table full.\<close>

definition seventeen_adds :: "tabop list" where
  "seventeen_adds = map (\<lambda>p. Add p BG ''sleep 9 &\<newline>'') [1..17]"

text \<open>
  Sixteen jobs, the jobs with the ids 2 and 3 deleted, and one more job: it gets the job id
  17 and \<^verbatim>\<open>nextjid\<close> wraps to 1.
\<close>

definition wrap_ops :: "tabop list" where
  "wrap_ops = map (\<lambda>p. Add p BG ''sleep 9 &\<newline>'') [1..16] @ [Del 2, Del 3,
      Add 17 BG ''ls &\<newline>'']"

text \<open>Three jobs of which the second was deleted: the job ids 1 and 3 are in use.\<close>

definition gap_shell :: shell where
  "gap_shell = run_ops [Add 1 BG ''a &\<newline>'', Add 2 BG ''b &\<newline>'', Add 3 BG ''c &\<newline>'', Del 2] (init_shell False)"

text \<open>At most one slot of the table is in the state \<open>FG\<close>.\<close>

definition at_most_one_fg :: "job list \<Rightarrow> bool" where
  "at_most_one_fg js = (length (filter (\<lambda>j. state j = FG) js) \<le> 1)"

text \<open>A background job with the pid 5 and a foreground job with the pid 7 the shell waits for.\<close>

definition fg_shell :: shell where
  "fg_shell = eval [''sleep'', ''9''] False ''sleep 9\<newline>'' (Forked 7 True True)
      (run_ops [Add 5 BG ''top &\<newline>''] (init_shell False))"

text \<open>
  The target token of \<^verbatim>\<open>fg\<close> and \<^verbatim>\<open>bg\<close>: a job id is \<^verbatim>\<open>%\<close> and a digit,
  a pid is a token that does not start with \<^verbatim>\<open>%\<close> and whose \<^verbatim>\<open>atoi\<close> value is
  not 0. \<open>target tok js\<close> is the slot the token names.
\<close>

definition is_jid_token :: "string \<Rightarrow> bool" where
  "is_jid_token tok = (case tok of c # d # _ \<Rightarrow> c = CHR ''%'' \<and> isdigit d | _ \<Rightarrow> False)"

definition is_pid_token :: "string \<Rightarrow> bool" where
  "is_pid_token tok = (take 1 tok \<noteq> ''%'' \<and> atoi tok \<noteq> 0)"

definition target :: "string \<Rightarrow> job list \<Rightarrow> nat option" where
  "target tok js =
     (if is_jid_token tok then getjobjid js (atoi (tl tok)) else getjobpid js (atoi tok))"



definition msg_not_found :: "string \<Rightarrow> string" where
  "msg_not_found tok =
     (if is_jid_token tok then tok @ '': No such job\<newline>''
      else ''('' @ tok @ ''): No such process\<newline>'')"

text \<open>The slots in the state \<open>FG\<close>.\<close>

definition fgs :: "job list \<Rightarrow> nat set" where
  "fgs js = {i. i < length js \<and> state (js ! i) = FG}"

text \<open>
  What the position of the control loop says about the foreground slots: inside
  \<^verbatim>\<open>waitfg(p)\<close> at most one slot is \<open>FG\<close> and it holds the pid \<open>p\<close>; after
  \<^verbatim>\<open>currjob->state = FG\<close> only the slot of \<^verbatim>\<open>currjob\<close> can be \<open>FG\<close>; at every
  other position of the running shell no slot is \<open>FG\<close>.
\<close>

fun ctl_inv :: "ctl \<Rightarrow> job list \<Rightarrow> bool" where
  "ctl_inv (WaitFg p) js = (\<exists>k. fgs js \<subseteq> {k} \<and> (k \<in> fgs js \<longrightarrow> pid (js ! k) = p))"
| "ctl_inv (FgSet k) js = (fgs js \<subseteq> {k})"
| "ctl_inv Exited js = (\<exists>k. fgs js \<subseteq> {k})"
| "ctl_inv Idle js = (fgs js = {})"
| "ctl_inv (Found k fg) js = (fgs js = {})"
| "ctl_inv (Conted k fg) js = (fgs js = {})"
| "ctl_inv (BgSet k) js = (fgs js = {})"

text \<open>
  What a handler does to the table: a slot keeps its contents or ends in the state
  \<open>UNDEF\<close> or \<open>ST\<close>.
\<close>

definition settles :: "job list \<Rightarrow> job list \<Rightarrow> bool" where
  "settles js js' =
     (length js' = length js
      \<and> (\<forall>a<length js. js' ! a = js ! a \<or> state (js' ! a) = UNDEF \<or> state (js' ! a) = ST))"

text \<open>A background job with the pid 5, a foreground job with the pid 7 that ctrl-z stops,
  and \<^verbatim>\<open>fg %1\<close> up to the wait for the job 1.\<close>

definition demo_run :: "action list" where
  "demo_run =
     [Eval [''top''] True ''top &\<newline>'' (Forked 5 True True),
      Eval [''sleep'', ''9''] False ''sleep 9\<newline>'' (Forked 7 True True),
      Tstp,
      Chld [(7, WStopped 20)],
      Tick True,
      Eval [''fg'', ''%1''] False ''fg %1\<newline>'' (Forked 0 True True),
      Tick True, Tick True, Tick True]"

text \<open>A background job with the pid 5 and \<^verbatim>\<open>fg %1\<close> up to the test for \<open>ST\<close>.\<close>

definition bg_then_fg :: "action list" where
  "bg_then_fg =
     [Eval [''top''] True ''top &\<newline>'' (Forked 5 True True),
      Eval [''fg'', ''%1''] False ''fg %1\<newline>'' (Forked 0 True True),
      Tick True]"

text \<open>
  Sixteen background jobs with the pids 1 to 16; the jobs 2 and 3 exit; a background job
  with the pid 17 gets the job id 17 and \<^verbatim>\<open>nextjid\<close> wraps; a foreground job with the
  pid 18 gets the job id 1, which the job with the pid 1 holds, and ctrl-z stops it.
\<close>

definition collide_run :: "action list" where
  "collide_run =
     map (\<lambda>p. Eval [''sleep'', ''9''] True ''sleep 9 &\<newline>'' (Forked p True True)) [1..16]
     @ [Chld [(2, WExited 0), (3, WExited 0)],
        Eval [''top''] True ''top &\<newline>'' (Forked 17 True True),
        Eval [''cat''] False ''cat\<newline>'' (Forked 18 True True),
        Tstp,
        Chld [(18, WStopped 20)],
        Tick True]"

text \<open>
  A foreground job with the pid 12 that ctrl-z stops; \<^verbatim>\<open>bg 12\<close>, and the job exits
  right after the \<^verbatim>\<open>SIGCONT\<close>, before \<^verbatim>\<open>do_bgfg\<close> goes on.
\<close>

definition exit_run :: "action list" where
  "exit_run =
     [Eval [''cat''] False ''cat\<newline>'' (Forked 12 True True),
      Tstp,
      Chld [(12, WStopped 20)],
      Tick True,
      Eval [''bg'', ''12''] False ''bg 12\<newline>'' (Forked 0 True True),
      Tick True,
      Chld [(12, WExited 0)],
      Tick True,
      Tick True]"

text \<open>A foreground job with the pid 7.\<close>

definition fg_run :: "action list" where
  "fg_run = [Eval [''sleep'', ''9''] False ''sleep 9\<newline>'' (Forked 7 True True)]"

section \<open>Lookups and the frame of the table operations\<close>

lemma find_slot_SomeD:
  "find_slot P js = Some k \<Longrightarrow> k < length js \<and> P (js ! k) \<and> (\<forall>i<k. \<not> P (js ! i))"
proof (induction js arbitrary: k)
  case Nil
  then show ?case by simp
next
  case (Cons j js)
  show ?case
  proof (cases "P j")
    case True
    with Cons.prems show ?thesis by simp
  next
    case False
    with Cons.prems obtain k' where k': "find_slot P js = Some k'" "k = Suc k'"
      by auto
    from Cons.IH [OF k'(1)] False k'(2) show ?thesis
      by (auto simp: nth_Cons split: nat.splits)
  qed
qed

lemma find_slot_None_iff: "find_slot P js = None \<longleftrightarrow> (\<forall>j\<in>set js. \<not> P j)"
  by (induction js) auto

lemma length_addjob [simp]: "length (jobs (snd (addjob p st cmd s))) = length (jobs s)"
  by (simp add: addjob_def emit_def Let_def split: option.splits)

lemma length_deletejob [simp]: "length (jobs (snd (deletejob p s))) = length (jobs s)"
  by (simp add: deletejob_def Let_def split: option.splits)

lemma slots_ok_update:
  "slots_ok js \<Longrightarrow> slot_ok j \<Longrightarrow> slots_ok (js[i := j])"
  by (auto simp: slots_ok_def list_all_iff dest!: set_update_subset_insert [THEN subsetD])

lemma slots_ok_initjobs: "slots_ok (initjobs js)"
  by (simp add: slots_ok_def initjobs_def list_all_iff slot_ok_def clearjob_def)

lemma slots_ok_addjob:
  "slots_ok (jobs s) \<Longrightarrow> slots_ok (jobs (snd (addjob p st cmd s)))"
  by (auto simp: addjob_def emit_def Let_def slot_ok_def intro!: slots_ok_update
      split: option.splits)

lemma slots_ok_deletejob:
  "slots_ok (jobs s) \<Longrightarrow> slots_ok (jobs (snd (deletejob p s)))"
  by (auto simp: deletejob_def Let_def slot_ok_def clearjob_def intro!: slots_ok_update
      split: option.splits)

lemma fold_max_skip_empty:
  "slots_ok js \<Longrightarrow> 0 \<le> m \<Longrightarrow>
   fold (\<lambda>j m. if jid j > m then jid j else m) js m =
   fold (\<lambda>j m. if jid j > m then jid j else m) (filter live js) m"
  by (induction js arbitrary: m) (auto simp: slots_ok_def slot_ok_def live_def)

lemma maxjid_live: "slots_ok js \<Longrightarrow> maxjid js = maxjid (filter live js)"
  by (simp add: maxjid_def fold_max_skip_empty)

lemma getjobpid_live: "getjobpid js p = Some k \<Longrightarrow> k < length js \<and> live (js ! k) \<and> pid (js ! k) = p"
  by (auto simp: getjobpid_def live_def split: if_splits dest!: find_slot_SomeD)

lemma getjobjid_live:
  "slots_ok js \<Longrightarrow> getjobjid js i = Some k \<Longrightarrow> k < length js \<and> live (js ! k) \<and> jid (js ! k) = i"
  by (auto simp: getjobjid_def live_def slots_ok_def slot_ok_def list_all_length
      split: if_splits dest!: find_slot_SomeD)

lemma fold_max_bounds:
  "m \<le> fold (\<lambda>j m. if jid j > m then jid j else m) js m
   \<and> (\<forall>j\<in>set js. jid j \<le> fold (\<lambda>j m. if jid j > m then jid j else m) js m)"
proof (induction js arbitrary: m)
  case Nil
  show ?case by simp
next
  case (Cons a js)
  let ?f = "\<lambda>j m. if jid j > m then jid j else m"
  from Cons.IH [of "?f a m"] show ?case by (auto split: if_splits)
qed

lemma maxjid_ge: "j \<in> set js \<Longrightarrow> jid j \<le> maxjid js"
  using fold_max_bounds [of 0 js] by (simp add: maxjid_def)

lemma fold_max_le:
  "m \<le> b \<Longrightarrow> \<forall>j\<in>set js. jid j \<le> b \<Longrightarrow>
   fold (\<lambda>j m. if jid j > m then jid j else m) js m \<le> b"
  by (induction js arbitrary: m) auto

lemma maxjid_le: "0 \<le> b \<Longrightarrow> \<forall>j\<in>set js. jid j \<le> b \<Longrightarrow> maxjid js \<le> b"
  by (simp add: maxjid_def fold_max_le)

lemma distinct_map_filter_conv:
  "distinct (map f (filter P xs)) \<longleftrightarrow>
   (\<forall>i<length xs. \<forall>j<length xs. i \<noteq> j \<and> P (xs ! i) \<and> P (xs ! j) \<longrightarrow> f (xs ! i) \<noteq> f (xs ! j))"
proof (induction xs)
  case Nil
  show ?case by simp
next
  case (Cons x xs)
  have mem: "f x \<in> f ` {y \<in> set xs. P y} \<longleftrightarrow> (\<exists>j<length xs. P (xs ! j) \<and> f (xs ! j) = f x)"
    by (auto simp: in_set_conv_nth image_iff)
  show ?case
  proof (cases "P x")
    case True
    have "distinct (map f (filter P (x # xs))) \<longleftrightarrow>
          (\<forall>j<length xs. P (xs ! j) \<longrightarrow> f (xs ! j) \<noteq> f x) \<and> distinct (map f (filter P xs))"
      using True mem by auto
    also have "\<dots> \<longleftrightarrow> (\<forall>i<length (x # xs). \<forall>j<length (x # xs).
        i \<noteq> j \<and> P ((x # xs) ! i) \<and> P ((x # xs) ! j) \<longrightarrow> f ((x # xs) ! i) \<noteq> f ((x # xs) ! j))"
      (is "?L \<longleftrightarrow> ?R")
    proof
      assume L: ?L
      show ?R
      proof (intro allI impI)
        fix i j
        assume "i < length (x # xs)" "j < length (x # xs)"
          "i \<noteq> j \<and> P ((x # xs) ! i) \<and> P ((x # xs) ! j)"
        with L Cons.IH show "f ((x # xs) ! i) \<noteq> f ((x # xs) ! j)"
          by (cases i; cases j) (auto dest: sym)
      qed
    next
      assume R: ?R
      have a: "\<forall>j<length xs. P (xs ! j) \<longrightarrow> f (xs ! j) \<noteq> f x"
      proof (intro allI impI)
        fix j assume "j < length xs" "P (xs ! j)"
        with R [rule_format, of "Suc j" 0] True show "f (xs ! j) \<noteq> f x" by simp
      qed
      have b: "\<forall>i<length xs. \<forall>j<length xs. i \<noteq> j \<and> P (xs ! i) \<and> P (xs ! j) \<longrightarrow> f (xs ! i) \<noteq> f (xs ! j)"
      proof (intro allI impI)
        fix i j assume "i < length xs" "j < length xs" "i \<noteq> j \<and> P (xs ! i) \<and> P (xs ! j)"
        with R [rule_format, of "Suc i" "Suc j"] show "f (xs ! i) \<noteq> f (xs ! j)" by simp
      qed
      from a b Cons.IH show ?L by simp
    qed
    finally show ?thesis .
  next
    case False
    have "(\<forall>i<length (x # xs). \<forall>j<length (x # xs).
        i \<noteq> j \<and> P ((x # xs) ! i) \<and> P ((x # xs) ! j) \<longrightarrow> f ((x # xs) ! i) \<noteq> f ((x # xs) ! j))
      \<longleftrightarrow> (\<forall>i<length xs. \<forall>j<length xs. i \<noteq> j \<and> P (xs ! i) \<and> P (xs ! j) \<longrightarrow> f (xs ! i) \<noteq> f (xs ! j))"
      (is "?A \<longleftrightarrow> ?B")
    proof
      assume A: ?A
      show ?B
      proof (intro allI impI)
        fix i j assume "i < length xs" "j < length xs" "i \<noteq> j \<and> P (xs ! i) \<and> P (xs ! j)"
        with A [rule_format, of "Suc i" "Suc j"] show "f (xs ! i) \<noteq> f (xs ! j)" by simp
      qed
    next
      assume B: ?B
      show ?A
      proof (intro allI impI)
        fix i j
        assume "i < length (x # xs)" "j < length (x # xs)"
          "i \<noteq> j \<and> P ((x # xs) ! i) \<and> P ((x # xs) ! j)"
        with B False show "f ((x # xs) ! i) \<noteq> f ((x # xs) ! j)"
          by (cases i; cases j) auto
      qed
    qed
    with False Cons.IH show ?thesis by simp
  qed
qed

lemma live_pids_distinct_conv:
  "distinct (live_pids js) \<longleftrightarrow>
   (\<forall>i<length js. \<forall>j<length js. i \<noteq> j \<and> live (js ! i) \<and> live (js ! j) \<longrightarrow> pid (js ! i) \<noteq> pid (js ! j))"
  unfolding live_pids_def by (rule distinct_map_filter_conv)

lemma live_jids_distinct_conv:
  "distinct (live_jids js) \<longleftrightarrow>
   (\<forall>i<length js. \<forall>j<length js. i \<noteq> j \<and> live (js ! i) \<and> live (js ! j) \<longrightarrow> jid (js ! i) \<noteq> jid (js ! j))"
  unfolding live_jids_def by (rule distinct_map_filter_conv)

lemma live_pid_mem: "i < length js \<Longrightarrow> live (js ! i) \<Longrightarrow> pid (js ! i) \<in> set (live_pids js)"
  by (auto simp: live_pids_def)

lemma job_fields:
  "(j::job)\<lparr>pid := p, state := st, jid := n, cmdline := c\<rparr>
     = \<lparr>pid = p, jid = n, state = st, cmdline = c\<rparr>"
  by (cases j) simp

text \<open>What the two table operations do to the slots.\<close>

lemma addjob_cases:
  obtains (fail) "jobs (snd (addjob p st cmd s)) = jobs s" "nextjid (snd (addjob p st cmd s)) = nextjid s"
  | (ok) i where "1 \<le> p" "i < length (jobs s)" "pid (jobs s ! i) = 0"
      "jobs (snd (addjob p st cmd s)) =
         (jobs s)[i := \<lparr>pid = p, jid = nextjid s, state = st, cmdline = cmd\<rparr>]"
proof (cases "p < 1 \<or> find_slot (\<lambda>j. pid j = 0) (jobs s) = None")
  case True
  then have "jobs (snd (addjob p st cmd s)) = jobs s \<and> nextjid (snd (addjob p st cmd s)) = nextjid s"
    by (auto simp: addjob_def emit_def)
  then show ?thesis using fail by blast
next
  case False
  then obtain i where i: "find_slot (\<lambda>j. pid j = 0) (jobs s) = Some i" and p: "1 \<le> p"
    by auto
  from find_slot_SomeD [OF i] have "i < length (jobs s)" "pid (jobs s ! i) = 0" by simp_all
  moreover have "jobs (snd (addjob p st cmd s)) =
         (jobs s)[i := \<lparr>pid = p, jid = nextjid s, state = st, cmdline = cmd\<rparr>]"
    using i p by (simp add: addjob_def emit_def Let_def job_fields)
  ultimately show ?thesis using ok p by blast
qed

lemma deletejob_cases:
  obtains (fail) "snd (deletejob p s) = s"
  | (ok) i where "1 \<le> p" "i < length (jobs s)" "pid (jobs s ! i) = p"
      "jobs (snd (deletejob p s)) = (jobs s)[i := clearjob (jobs s ! i)]"
      "nextjid (snd (deletejob p s)) = maxjid (jobs (snd (deletejob p s))) + 1"
proof (cases "p < 1 \<or> find_slot (\<lambda>j. pid j = p) (jobs s) = None")
  case True
  then have "snd (deletejob p s) = s" by (auto simp: deletejob_def)
  then show ?thesis using fail by blast
next
  case False
  then obtain i where i: "find_slot (\<lambda>j. pid j = p) (jobs s) = Some i" and p: "1 \<le> p"
    by auto
  from find_slot_SomeD [OF i] have "i < length (jobs s)" "pid (jobs s ! i) = p" by simp_all
  moreover have "jobs (snd (deletejob p s)) = (jobs s)[i := clearjob (jobs s ! i)]"
      "nextjid (snd (deletejob p s)) = maxjid (jobs (snd (deletejob p s))) + 1"
    using i p by (simp_all add: deletejob_def Let_def)
  ultimately show ?thesis using ok p by blast
qed

lemma distinct_pids_addjob:
  assumes "distinct (live_pids (jobs s))" and "p \<notin> set (live_pids (jobs s))"
  shows "distinct (live_pids (jobs (snd (addjob p st cmd s))))"
proof (cases p st cmd s rule: addjob_cases)
  case fail
  with assms(1) show ?thesis by simp
next
  case (ok i)
  have fresh: "\<And>b. b < length (jobs s) \<Longrightarrow> live (jobs s ! b) \<Longrightarrow> pid (jobs s ! b) \<noteq> p"
    using assms(2) live_pid_mem by blast
  show ?thesis
    unfolding live_pids_distinct_conv ok(4)
  proof (intro allI impI)
    fix a b
    let ?js = "(jobs s)[i := \<lparr>pid = p, jid = nextjid s, state = st, cmdline = cmd\<rparr>]"
    assume a: "a < length ?js" and b: "b < length ?js"
      and ab: "a \<noteq> b \<and> live (?js ! a) \<and> live (?js ! b)"
    show "pid (?js ! a) \<noteq> pid (?js ! b)"
    proof (cases "a = i")
      case True
      with a b ab fresh [of b] show ?thesis by (auto simp: nth_list_update)
    next
      case False
      note ai = this
      show ?thesis
      proof (cases "b = i")
        case True
        with a b ab ai fresh [of a] show ?thesis by (auto simp: nth_list_update)
      next
        case False
        with ai a b ab assms(1) show ?thesis
          by (simp add: live_pids_distinct_conv nth_list_update)
      qed
    qed
  qed
qed

lemma distinct_jids_addjob:
  assumes "distinct (live_jids (jobs s))" and "maxjid (jobs s) < nextjid s"
  shows "distinct (live_jids (jobs (snd (addjob p st cmd s))))"
proof (cases p st cmd s rule: addjob_cases)
  case fail
  with assms(1) show ?thesis by simp
next
  case (ok i)
  have fresh: "\<And>b. b < length (jobs s) \<Longrightarrow> jid (jobs s ! b) \<noteq> nextjid s"
    using assms(2) maxjid_ge [OF nth_mem] by fastforce
  show ?thesis
    unfolding live_jids_distinct_conv ok(4)
  proof (intro allI impI)
    fix a b
    let ?js = "(jobs s)[i := \<lparr>pid = p, jid = nextjid s, state = st, cmdline = cmd\<rparr>]"
    assume a: "a < length ?js" and b: "b < length ?js"
      and ab: "a \<noteq> b \<and> live (?js ! a) \<and> live (?js ! b)"
    show "jid (?js ! a) \<noteq> jid (?js ! b)"
    proof (cases "a = i")
      case True
      with a b ab fresh [of b] show ?thesis by (auto simp: nth_list_update)
    next
      case False
      note ai = this
      show ?thesis
      proof (cases "b = i")
        case True
        with a b ab ai fresh [of a] show ?thesis by (auto simp: nth_list_update)
      next
        case False
        with ai a b ab assms(1) show ?thesis
          by (simp add: live_jids_distinct_conv nth_list_update)
      qed
    qed
  qed
qed

lemma distinct_ids_deletejob:
  "distinct (live_pids (jobs s)) \<Longrightarrow> distinct (live_pids (jobs (snd (deletejob p s))))"
  "distinct (live_jids (jobs s)) \<Longrightarrow> distinct (live_jids (jobs (snd (deletejob p s))))"
proof -
  have "not_live": "\<not> live (clearjob j)" for j by (simp add: live_def clearjob_def)
  show "distinct (live_pids (jobs s)) \<Longrightarrow> distinct (live_pids (jobs (snd (deletejob p s))))"
  proof (cases p s rule: deletejob_cases)
    case fail
    assume "distinct (live_pids (jobs s))"
    with fail show ?thesis by simp
  next
    case (ok i)
    assume "distinct (live_pids (jobs s))"
    then show ?thesis
      unfolding live_pids_distinct_conv ok(4) using ok(2)
      by (auto simp: nth_list_update not_live split: if_splits)
  qed
  show "distinct (live_jids (jobs s)) \<Longrightarrow> distinct (live_jids (jobs (snd (deletejob p s))))"
  proof (cases p s rule: deletejob_cases)
    case fail
    assume "distinct (live_jids (jobs s))"
    with fail show ?thesis by simp
  next
    case (ok i)
    assume "distinct (live_jids (jobs s))"
    then show ?thesis
      unfolding live_jids_distinct_conv ok(4) using ok(2)
      by (auto simp: nth_list_update not_live split: if_splits)
  qed
qed

lemma run_ops_Cons [simp]: "run_ops (x # ops) s = run_ops ops (apply_op x s)"
  by (simp add: run_ops_def)

lemma run_ops_Nil [simp]: "run_ops [] s = s"
  by (simp add: run_ops_def)

lemma pids_fresh_distinct:
  "distinct (live_pids (jobs s)) \<Longrightarrow> pids_fresh ops s \<Longrightarrow> distinct (live_pids (jobs (run_ops ops s)))"
proof (induction ops arbitrary: s)
  case Nil
  then show ?case by simp
next
  case (Cons x ops)
  then show ?case
    by (cases x) (auto intro: distinct_pids_addjob distinct_ids_deletejob)
qed

lemma init_no_live: "filter live (jobs (init_shell v)) = []"
  by (simp add: init_shell_def initjobs_def live_def clearjob_def filter_empty_conv)

lemma addjob_result:
  obtains (fail) "\<not> fst (addjob p st cmd s)" "jobs (snd (addjob p st cmd s)) = jobs s"
      "nextjid (snd (addjob p st cmd s)) = nextjid s"
  | (ok) i where "fst (addjob p st cmd s)" "i < length (jobs s)"
      "jobs (snd (addjob p st cmd s)) =
         (jobs s)[i := \<lparr>pid = p, jid = nextjid s, state = st, cmdline = cmd\<rparr>]"
      "nextjid (snd (addjob p st cmd s)) =
         (if nextjid s + 1 > int MAXJOBS then 1 else nextjid s + 1)"
proof (cases "p < 1 \<or> find_slot (\<lambda>j. pid j = 0) (jobs s) = None")
  case True
  then have "\<not> fst (addjob p st cmd s) \<and> jobs (snd (addjob p st cmd s)) = jobs s
      \<and> nextjid (snd (addjob p st cmd s)) = nextjid s"
    by (auto simp: addjob_def emit_def)
  then show ?thesis using fail by blast
next
  case False
  then obtain i where i: "find_slot (\<lambda>j. pid j = 0) (jobs s) = Some i" and p: "1 \<le> p"
    by auto
  from find_slot_SomeD [OF i] have "i < length (jobs s)" by simp
  moreover have "fst (addjob p st cmd s)"
    "jobs (snd (addjob p st cmd s)) =
         (jobs s)[i := \<lparr>pid = p, jid = nextjid s, state = st, cmdline = cmd\<rparr>]"
    "nextjid (snd (addjob p st cmd s)) =
         (if nextjid s + 1 > int MAXJOBS then 1 else nextjid s + 1)"
    using i p by (simp_all add: addjob_def emit_def Let_def job_fields)
  ultimately show ?thesis using ok by blast
qed

lemma deletejob_result:
  obtains (fail) "\<not> fst (deletejob p s)" "snd (deletejob p s) = s"
  | (ok) i where "fst (deletejob p s)"
      "jobs (snd (deletejob p s)) = (jobs s)[i := clearjob (jobs s ! i)]"
      "nextjid (snd (deletejob p s)) = maxjid (jobs (snd (deletejob p s))) + 1"
proof (cases "p < 1 \<or> find_slot (\<lambda>j. pid j = p) (jobs s) = None")
  case True
  then have "\<not> fst (deletejob p s) \<and> snd (deletejob p s) = s" by (auto simp: deletejob_def)
  then show ?thesis using fail by blast
next
  case False
  then obtain i where "find_slot (\<lambda>j. pid j = p) (jobs s) = Some i" and "1 \<le> p" by auto
  then have "fst (deletejob p s)"
      "jobs (snd (deletejob p s)) = (jobs s)[i := clearjob (jobs s ! i)]"
      "nextjid (snd (deletejob p s)) = maxjid (jobs (snd (deletejob p s))) + 1"
    by (simp_all add: deletejob_def Let_def)
  then show ?thesis using ok by blast
qed

lemma maxjid_update_le:
  assumes "maxjid js \<le> b" and "jid j \<le> b" and "0 \<le> b"
  shows "maxjid (js[i := j]) \<le> b"
proof (rule maxjid_le [OF assms(3)])
  show "\<forall>x\<in>set (js[i := j]). jid x \<le> b"
  proof
    fix x assume "x \<in> set (js[i := j])"
    then have "x = j \<or> x \<in> set js" using set_update_subset_insert [of js i j] by auto
    then show "jid x \<le> b" using assms(1,2) maxjid_ge [of x js] by auto
  qed
qed

lemma maxjid_nonneg: "0 \<le> maxjid js"
  using fold_max_bounds [of 0 js] by (simp add: maxjid_def)

text \<open>
  While \<^verbatim>\<open>nextjid\<close> is above every job id of the table, the job that \<^verbatim>\<open>addjob\<close>
  adds gets the highest job id; \<^verbatim>\<open>nextjid\<close> stays above unless that id is
  \<^verbatim>\<open>MAXJOBS\<close> or more, and \<^verbatim>\<open>deletejob\<close> puts it above again.
\<close>

lemma maxjid_after_add:
  assumes "maxjid js < n"
  shows "i < length js \<Longrightarrow> maxjid (js[i := \<lparr>pid = p, jid = n, state = st, cmdline = cmd\<rparr>]) = n"
proof -
  assume i: "i < length js"
  let ?j = "\<lparr>pid = p, jid = n, state = st, cmdline = cmd\<rparr>"
  have "maxjid (js[i := ?j]) \<le> n"
    using assms maxjid_nonneg [of js] by (intro maxjid_update_le) simp_all
  moreover have "jid ?j \<le> maxjid (js[i := ?j])"
    using i by (intro maxjid_ge set_update_memI)
  ultimately show ?thesis by simp
qed

lemma no_add_after_wrap_distinct:
  "distinct (live_jids (jobs s)) \<Longrightarrow> (\<not> w \<longrightarrow> maxjid (jobs s) < nextjid s) \<Longrightarrow>
   no_add_after_wrap w ops s \<Longrightarrow> distinct (live_jids (jobs (run_ops ops s)))"
proof (induction ops arbitrary: s w)
  case Nil
  then show ?case by simp
next
  case (Cons a ops)
  show ?case
  proof (cases a)
    case (Add p st cmd)
    let ?s' = "snd (addjob p st cmd s)"
    show ?thesis
    proof (cases p st cmd s rule: addjob_result)
      case fail
      with Cons.prems Add have "distinct (live_jids (jobs ?s'))"
        "\<not> w \<longrightarrow> maxjid (jobs ?s') < nextjid ?s'" "no_add_after_wrap w ops ?s'"
        by simp_all
      from Cons.IH [OF this] Add show ?thesis by simp
    next
      case (ok i)
      with Cons.prems Add have w: "\<not> w"
        and rest: "no_add_after_wrap (int MAXJOBS \<le> maxjid (jobs ?s')) ops ?s'"
        by simp_all
      with Cons.prems have ahead: "maxjid (jobs s) < nextjid s" by simp
      have d: "distinct (live_jids (jobs ?s'))"
        using Cons.prems(1) ahead by (rule distinct_jids_addjob)
      have m: "maxjid (jobs ?s') = nextjid s"
        unfolding ok(3) using ahead ok(2) by (rule maxjid_after_add)
      have a: "\<not> int MAXJOBS \<le> maxjid (jobs ?s') \<longrightarrow> maxjid (jobs ?s') < nextjid ?s'"
        using m ok(4) by simp
      from Cons.IH [OF d a rest] Add show ?thesis by simp
    qed
  next
    case (Del p)
    let ?s' = "snd (deletejob p s)"
    have d: "distinct (live_jids (jobs ?s'))"
      using Cons.prems(1) by (rule distinct_ids_deletejob)
    have rest: "no_add_after_wrap (w \<and> \<not> fst (deletejob p s)) ops ?s'"
      using Cons.prems(3) Del by simp
    have a: "\<not> (w \<and> \<not> fst (deletejob p s)) \<longrightarrow> maxjid (jobs ?s') < nextjid ?s'"
    proof (cases p s rule: deletejob_result)
      case fail
      with Cons.prems(2) show ?thesis by simp
    next
      case (ok i)
      then show ?thesis by simp
    qed
    from Cons.IH [OF d a rest] Del show ?thesis by simp
  qed
qed

lemma no_adds_no_wrap: "adds ops = 0 \<Longrightarrow> no_add_after_wrap w ops s"
proof (induction ops arbitrary: w s)
  case Nil
  show ?case by simp
next
  case (Cons a ops)
  then show ?case by (cases a) simp_all
qed

lemma few_adds_no_wrap:
  "maxjid (jobs s) < nextjid s \<Longrightarrow> nextjid s + int (adds ops) \<le> int MAXJOBS + 1 \<Longrightarrow>
   no_add_after_wrap False ops s"
proof (induction ops arbitrary: s)
  case Nil
  show ?case by simp
next
  case (Cons x ops)
  show ?case
  proof (cases x)
    case (Add p st cmd)
    let ?s' = "snd (addjob p st cmd s)"
    from Cons.prems(2) Add have bound: "nextjid s + int (adds ops) + 1 \<le> int MAXJOBS + 1"
      by simp
    show ?thesis
    proof (cases p st cmd s rule: addjob_result)
      case fail
      with Cons.prems(1) bound have "no_add_after_wrap False ops ?s'"
        by (intro Cons.IH) simp_all
      with fail Add show ?thesis by simp
    next
      case (ok i)
      have m: "maxjid (jobs ?s') = nextjid s"
        unfolding ok(3) using Cons.prems(1) ok(2) by (rule maxjid_after_add)
      have "no_add_after_wrap (int MAXJOBS \<le> maxjid (jobs ?s')) ops ?s'"
      proof (cases "int MAXJOBS \<le> nextjid s")
        case True
        with bound have "adds ops = 0" by simp
        then show ?thesis by (rule no_adds_no_wrap)
      next
        case False
        with m ok(4) bound have "no_add_after_wrap False ops ?s'"
          by (intro Cons.IH) simp_all
        with False m show ?thesis by simp
      qed
      with ok Add show ?thesis by simp
    qed
  next
    case (Del p)
    let ?s' = "snd (deletejob p s)"
    from Cons.prems(2) Del have bound: "nextjid s + int (adds ops) \<le> int MAXJOBS + 1" by simp
    have "no_add_after_wrap False ops ?s'"
    proof (cases p s rule: deletejob_result)
      case fail
      with Cons.prems(1) bound show ?thesis by (simp add: Cons.IH)
    next
      case (ok i)
      have "maxjid (jobs ?s') \<le> maxjid (jobs s)"
        unfolding ok(2) using maxjid_nonneg [of "jobs s"]
        by (intro maxjid_update_le) (simp_all add: clearjob_def)
      with ok(3) Cons.prems(1) bound show ?thesis by (intro Cons.IH) simp_all
    qed
    with Del show ?thesis by simp
  qed
qed

lemma init_ahead: "maxjid (jobs (init_shell v)) < nextjid (init_shell v)"
  by (simp add: init_shell_def initjobs_def maxjid_def MAXJOBS_def zero_job_def clearjob_def
      numeral_eq_Suc)

lemma at_most_maxjobs_adds:
  "adds ops \<le> MAXJOBS \<Longrightarrow> no_add_after_wrap False ops (init_shell v)"
  by (rule few_adds_no_wrap [OF init_ahead]) (simp add: init_shell_def)

lemma filter_le_one_unique:
  assumes "length (filter P xs) \<le> 1" "i < length xs" "j < length xs" "P (xs ! i)" "P (xs ! j)"
  shows "i = j"
proof (rule ccontr)
  assume "i \<noteq> j"
  let ?S = "{a. a < length xs \<and> P (xs ! a)}"
  have "{i, j} \<subseteq> ?S" using assms by simp
  moreover have "finite ?S" by simp
  ultimately have "card {i, j} \<le> card ?S" by (rule card_mono [rotated])
  with \<open>i \<noteq> j\<close> have "2 \<le> card ?S" by simp
  with assms(1) show False by (simp add: length_filter_conv_card)
qed

lemma filter_le_one_intro:
  assumes "\<And>i. i < length xs \<Longrightarrow> P (xs ! i) \<Longrightarrow> i = k"
  shows "length (filter P xs) \<le> 1"
proof -
  have "{a. a < length xs \<and> P (xs ! a)} \<subseteq> {k}" using assms by auto
  then have "card {a. a < length xs \<and> P (xs ! a)} \<le> card {k}"
    by (intro card_mono) simp_all
  then show ?thesis by (simp add: length_filter_conv_card)
qed

lemma fgpid_only_fg:
  assumes "at_most_one_fg js" "k < length js" "state (js ! k) = FG"
  shows "fgpid js = pid (js ! k)"
proof -
  from assms(2,3) have "find_slot (\<lambda>j. state j = FG) js \<noteq> None"
    unfolding find_slot_None_iff using nth_mem by blast
  then obtain k' where k': "find_slot (\<lambda>j. state j = FG) js = Some k'" by auto
  from find_slot_SomeD [OF k'] have "k' < length js" "state (js ! k') = FG" by simp_all
  with assms have "k' = k"
    unfolding at_most_one_fg_def by (intro filter_le_one_unique [where P = "\<lambda>j. state j = FG"])
  with k' show ?thesis by (simp add: fgpid_def)
qed

lemma fgpid_no_live_fg:
  assumes "\<forall>j\<in>set js. state j = FG \<longrightarrow> pid j = 0"
  shows "fgpid js = 0"
proof (cases "find_slot (\<lambda>j. state j = FG) js")
  case None
  then show ?thesis by (simp add: fgpid_def)
next
  case (Some k)
  from find_slot_SomeD [OF Some] assms have "pid (js ! k) = 0" by auto
  with Some show ?thesis by (simp add: fgpid_def)
qed

lemma pid2jid_tracked: "getjobpid js p = Some k \<Longrightarrow> pid2jid js p = jid (js ! k)"
  by (auto simp: getjobpid_def pid2jid_def split: if_splits)

lemma deletejob_tracked:
  "getjobpid (jobs s) p = Some k \<Longrightarrow>
   snd (deletejob p s) = s\<lparr>jobs := (jobs s)[k := clearjob (jobs s ! k)],
       nextjid := maxjid ((jobs s)[k := clearjob (jobs s ! k)]) + 1\<rparr>"
  by (auto simp: getjobpid_def deletejob_def Let_def split: if_splits)

lemma find_slot_update_same:
  "k < length js \<Longrightarrow> P j' = P (js ! k) \<Longrightarrow> find_slot P (js[k := j']) = find_slot P js"
proof (induction js arbitrary: k)
  case Nil
  then show ?case by simp
next
  case (Cons a js)
  then show ?case by (cases k) simp_all
qed

lemma pid2jid_state_update:
  assumes "getjobpid js (pid (js ! k)) = Some k"
  shows "pid2jid (js[k := (js ! k)\<lparr>state := st\<rparr>]) (pid (js ! k)) = jid (js ! k)"
proof -
  from assms have k: "k < length js" by (simp add: getjobpid_live)
  have "getjobpid (js[k := (js ! k)\<lparr>state := st\<rparr>]) (pid (js ! k)) = Some k"
    using assms k by (simp add: getjobpid_def find_slot_update_same split: if_splits)
  from pid2jid_tracked [OF this] k show ?thesis by simp
qed

section \<open>The target of fg and bg\<close>

lemma atoi_examples:
  "atoi ''12'' = 12" "atoi ''4294967308'' = 12" "atoi ''4294967296'' = 0" "atoi '' -7x'' = - 7"
  "atoi ''99999999999999999999'' = - 1" "atoi ''2147483648'' = - 2147483648"
  by code_simp+

lemma is_jid_token_conv:
  "is_jid_token tok \<longleftrightarrow>
   take 1 tok = ''%'' \<and> (case drop 1 tok of [] \<Rightarrow> False | d # _ \<Rightarrow> isdigit d)"
proof (cases tok)
  case Nil
  then show ?thesis by (simp add: is_jid_token_def)
next
  case (Cons c cs)
  then show ?thesis by (cases cs) (auto simp: is_jid_token_def)
qed

lemma jid_token_not_pid: "is_jid_token tok \<Longrightarrow> \<not> is_pid_token tok"
  by (simp add: is_jid_token_conv is_pid_token_def)



lemma bgfg_resolve_wellformed:
  "is_jid_token tok \<or> is_pid_token tok \<Longrightarrow>
   bgfg_resolve (cmd # tok # rest) js =
     (case target tok js of None \<Rightarrow> Inl (msg_not_found tok) | Some k \<Rightarrow> Inr k)"
proof (cases "is_jid_token tok")
  case True
  then have "drop 1 tok = tl tok" by (simp add: drop_Suc)
  with True show ?thesis
    by (auto simp: bgfg_resolve_def target_def msg_not_found_def is_jid_token_conv
        split: list.splits option.splits)
next
  case False
  assume "is_jid_token tok \<or> is_pid_token tok"
  with False have p: "is_pid_token tok" by simp
  with False show ?thesis
    by (auto simp: bgfg_resolve_def target_def msg_not_found_def is_pid_token_def
        split: list.splits option.splits)
qed



section \<open>The reentrant output functions\<close>

lemma sio_reverse_loop_length [simp]: "length (sio_reverse_loop i j s) = length s"
  by (induction i j s rule: sio_reverse_loop.induct) (subst sio_reverse_loop.simps, simp)

lemma sio_reverse_loop_nth:
  "i + j + 1 = length s \<Longrightarrow> a < length s \<Longrightarrow>
   sio_reverse_loop i j s ! a = (if i \<le> a \<and> a \<le> j then s ! (i + j - a) else s ! a)"
proof (induction i j s arbitrary: a rule: sio_reverse_loop.induct)
  case (1 i j s)
  show ?case
  proof (cases "i < j")
    case False
    with "1.prems" have "i \<le> a \<and> a \<le> j \<longrightarrow> i + j - a = a" by auto
    with False show ?thesis by (subst sio_reverse_loop.simps) auto
  next
    case True
    let ?s = "s[i := s ! j, j := s ! i]"
    have len: "i + 1 + (j - 1) + 1 = length ?s" using True "1.prems" by simp
    have a: "a < length ?s" using "1.prems" by simp
    have "sio_reverse_loop i j s ! a = sio_reverse_loop (i + 1) (j - 1) ?s ! a"
      using True by (subst sio_reverse_loop.simps) simp
    also have "\<dots> = (if i + 1 \<le> a \<and> a \<le> j - 1 then ?s ! (i + 1 + (j - 1) - a) else ?s ! a)"
      using "1.IH" [OF True len a] .
    also have "\<dots> = (if i \<le> a \<and> a \<le> j then s ! (i + j - a) else s ! a)"
      using True "1.prems" by (auto simp: nth_list_update)
    finally show ?thesis .
  qed
qed

lemma sio_reverse_rev: "sio_reverse s = rev s"
proof (cases "s = []")
  case True
  then show ?thesis by (simp add: sio_reverse_def sio_reverse_loop.simps)
next
  case False
  show ?thesis
  proof (rule nth_equalityI)
    show "length (sio_reverse s) = length (rev s)" by (simp add: sio_reverse_def)
  next
    fix a assume "a < length (sio_reverse s)"
    then have a: "a < length s" by (simp add: sio_reverse_def)
    from False have len: "0 + (length s - 1) + 1 = length s" by simp
    from a have le: "a \<le> length s - 1" by arith
    from sio_reverse_loop_nth [OF len a] le a
    show "sio_reverse s ! a = rev s ! a"
      by (simp add: sio_reverse_def rev_nth)
  qed
qed
section \<open>The foreground slot along an execution\<close>

lemma nth_update_any: "xs[i := x] ! a = (if a = i \<and> i < length xs then x else xs ! a)"
  by (cases "i < length xs") (auto simp: nth_list_update list_update_beyond)

lemma settles_refl [simp]: "settles js js"
  by (simp add: settles_def)

lemma settles_trans: "settles js js' \<Longrightarrow> settles js' js'' \<Longrightarrow> settles js js''"
  unfolding settles_def by (metis (no_types, lifting))

lemma settles_update:
  "state j = UNDEF \<or> state j = ST \<Longrightarrow> settles js (js[i := j])"
  by (auto simp: settles_def nth_update_any)

lemma settles_fgs: "settles js js' \<Longrightarrow> a \<in> fgs js' \<Longrightarrow> a \<in> fgs js \<and> js' ! a = js ! a"
  by (auto simp: settles_def fgs_def)

lemma ctl_inv_settles:
  assumes "ctl_inv c js" and "settles js js'"
  shows "ctl_inv c js'"
proof -
  have sub: "fgs js' \<subseteq> fgs js" using assms(2) settles_fgs by blast
  have same: "\<And>a. a \<in> fgs js' \<Longrightarrow> pid (js' ! a) = pid (js ! a)"
    using assms(2) settles_fgs by fastforce
  show ?thesis
  proof (cases c)
    case (WaitFg p)
    with assms(1) obtain k where k: "fgs js \<subseteq> {k}" "k \<in> fgs js \<longrightarrow> pid (js ! k) = p"
      by auto
    have "fgs js' \<subseteq> {k}" using k(1) sub by blast
    moreover have "k \<in> fgs js' \<longrightarrow> pid (js' ! k) = p" using k(2) sub same by auto
    ultimately show ?thesis using WaitFg by auto
  qed (use assms(1) sub in auto)
qed

lemma ctl_inv_Exited: "ctl_inv c js \<Longrightarrow> ctl_inv Exited js"
  by (cases c) auto

lemma fgs_update_fg: "fgs js = {} \<Longrightarrow> fgs (js[i := j]) \<subseteq> {i}"
  by (auto simp: fgs_def nth_update_any split: if_splits)

lemma fgs_update_other: "fgs js = {} \<Longrightarrow> state j \<noteq> FG \<Longrightarrow> fgs (js[i := j]) = {}"
  by (auto simp: fgs_def nth_update_any split: if_splits)

lemma fgpid_of_fgs:
  assumes "fgs js \<subseteq> {k}" and "k \<in> fgs js"
  shows "fgpid js = pid (js ! k)"
proof -
  from assms(2) have "k < length js" "state (js ! k) = FG" by (simp_all add: fgs_def)
  then have "find_slot (\<lambda>j. state j = FG) js \<noteq> None"
    unfolding find_slot_None_iff using nth_mem by blast
  then obtain k' where k': "find_slot (\<lambda>j. state j = FG) js = Some k'" by auto
  from find_slot_SomeD [OF k'] have "k' \<in> fgs js" by (simp add: fgs_def)
  with assms(1) have "k' = k" by auto
  with k' show ?thesis by (simp add: fgpid_def)
qed

text \<open>The frame of the small functions.\<close>

lemma emit_frame [simp]:
  "jobs (emit e s) = jobs s" "pc (emit e s) = pc s" "nextjid (emit e s) = nextjid s"
  by (simp_all add: emit_def)

lemma unix_error_frame [simp]:
  "jobs (unix_error m s) = jobs s" "pc (unix_error m s) = Exited"
  by (simp_all add: unix_error_def)

lemma listjobs_frame [simp]: "jobs (listjobs s) = jobs s" "pc (listjobs s) = pc s"
  by (simp_all add: listjobs_def)

lemma addjob_pc [simp]: "pc (snd (addjob p st cmd s)) = pc s"
  by (simp add: addjob_def emit_def Let_def split: option.splits)

lemma deletejob_pc [simp]: "pc (snd (deletejob p s)) = pc s"
  by (simp add: deletejob_def Let_def split: option.splits)

lemma sio_frame [simp]:
  "jobs (sio_puts x s) = jobs s" "pc (sio_puts x s) = pc s"
  "jobs (sio_putl v s) = jobs s" "pc (sio_putl v s) = pc s"
  by (simp_all add: sio_puts_def sio_putl_def)

lemma bgfg_begin_frame:
  "jobs (bgfg_begin argv s) = jobs s"
  "pc (bgfg_begin argv s) = pc s \<or> (\<exists>k fg. pc (bgfg_begin argv s) = Found k fg)"
  by (auto simp: bgfg_begin_def split: sum.splits)

lemma bgfg_cont_frame:
  "jobs (bgfg_cont k fg ok s) = jobs s"
  "pc (bgfg_cont k fg ok s) = Conted k fg \<or> pc (bgfg_cont k fg ok s) = Exited"
  by (auto simp: bgfg_cont_def Let_def)

lemma waitfg_check_inv:
  assumes "fgs (jobs s) \<subseteq> {k}" and "k \<in> fgs (jobs s) \<longrightarrow> pid (jobs s ! k) = p"
  shows "ctl_inv (pc (waitfg_check p s)) (jobs (waitfg_check p s))"
proof (cases "fgpid (jobs s) \<noteq> p")
  case True
  have "k \<notin> fgs (jobs s)"
  proof
    assume "k \<in> fgs (jobs s)"
    with assms fgpid_of_fgs [of "jobs s" k] True show False by simp
  qed
  with assms(1) have "fgs (jobs s) = {}" by auto
  with True show ?thesis by (simp add: waitfg_check_def)
next
  case False
  with assms show ?thesis by (auto simp: waitfg_check_def)
qed

lemma waitfg_inv:
  assumes "fgs (jobs s) \<subseteq> {k}" and "k \<in> fgs (jobs s) \<longrightarrow> pid (jobs s ! k) = p"
  shows "ctl_inv (pc (waitfg ok p s)) (jobs (waitfg ok p s))"
proof (cases ok)
  case True
  with waitfg_check_inv [OF assms] show ?thesis by (simp add: waitfg_def)
next
  case False
  with assms(1) show ?thesis by (auto simp: waitfg_def)
qed

lemma deletejob_settles: "settles (jobs s) (jobs (snd (deletejob p s)))"
proof (cases p s rule: deletejob_cases)
  case fail
  then show ?thesis by simp
next
  case (ok i)
  then show ?thesis by (simp add: settles_update clearjob_def)
qed

lemma sigchld_child_settles:
  assumes "sigchld_child p w s = Some s'"
  shows "settles (jobs s) (jobs s') \<and> pc s' = pc s"
proof (cases w)
  case (WExited n)
  with assms show ?thesis by (auto simp: sigchld_child_def deletejob_settles)
next
  case (WSignaled sg)
  with assms deletejob_settles [of "sio_puts ''\<newline>'' (sio_puts '') terminated by signal SIGINT''
      (sio_putl p (sio_puts ''] ('' (sio_putl (pid2jid (jobs s) p) (sio_puts ''Job ['' s)))))" p]
  show ?thesis by (auto simp: sigchld_child_def Let_def)
next
  case (WStopped sg)
  with assms show ?thesis
    by (auto simp: sigchld_child_def Let_def settles_update split: option.splits if_splits)
qed

lemma sigchld_handler_settles:
  "sigchld_handler evs s = Some s' \<Longrightarrow> settles (jobs s) (jobs s') \<and> pc s' = pc s"
proof (induction evs arbitrary: s)
  case Nil
  then show ?case by simp
next
  case (Cons ev evs)
  obtain p w where ev: "ev = (p, w)" by (cases ev)
  show ?case
  proof (cases "p > 0")
    case False
    with Cons.prems ev show ?thesis by simp
  next
    case True
    with Cons.prems ev obtain s1 where s1: "sigchld_child p w s = Some s1"
      and rest: "sigchld_handler evs s1 = Some s'"
      by (auto split: option.splits)
    from sigchld_child_settles [OF s1] Cons.IH [OF rest] show ?thesis
      by (auto intro: settles_trans)
  qed
qed

lemma eval_inv:
  assumes "fgs (jobs s) = {}" and "pc s = Idle"
  shows "ctl_inv (pc (eval argv bg cmd os s)) (jobs (eval argv bg cmd os s))"
proof (cases "argv = []")
  case True
  with assms show ?thesis by (simp add: eval_def)
next
  case False
  note argv = this
  show ?thesis
  proof (cases "builtin_cmd argv s")
    case (Some s')
    then have "jobs s' = jobs s" and "pc s' = Exited \<or> pc s' = Idle \<or> (\<exists>k fg. pc s' = Found k fg)"
      using assms(2) bgfg_begin_frame [of argv s]
      by (auto simp: builtin_cmd_def split: if_splits)
    with assms(1) Some argv show ?thesis by (auto simp: eval_def)
  next
    case None
    show ?thesis
    proof (cases os)
      case (Forked p unblock_ok wait_ok)
      show ?thesis
      proof (cases "p = 0")
        case True
        with assms None argv Forked show ?thesis by (simp add: eval_def)
      next
        case False
        note p = this
        show ?thesis
        proof (cases bg)
          case True
          have "fgs (jobs (snd (addjob p BG cmd s))) = {}"
            by (cases p BG cmd s rule: addjob_cases) (simp_all add: assms(1) fgs_update_other)
          with True p None argv Forked assms(2) show ?thesis by (simp add: eval_def Let_def)
        next
          case False
          let ?s1 = "snd (addjob p FG cmd s)"
          have "\<exists>k. fgs (jobs ?s1) \<subseteq> {k} \<and> (k \<in> fgs (jobs ?s1) \<longrightarrow> pid (jobs ?s1 ! k) = p)"
          proof (cases p FG cmd s rule: addjob_cases)
            case fail
            with assms(1) show ?thesis by simp
          next
            case (ok i)
            then have "fgs (jobs ?s1) \<subseteq> {i}" "pid (jobs ?s1 ! i) = p"
              by (simp_all add: assms(1) fgs_update_fg)
            then show ?thesis by blast
          qed
          then obtain k where k: "fgs (jobs ?s1) \<subseteq> {k}"
            "k \<in> fgs (jobs ?s1) \<longrightarrow> pid (jobs ?s1 ! k) = p" by blast
          show ?thesis
          proof (cases unblock_ok)
            case True
            with False p None argv Forked waitfg_inv [OF k, of wait_ok] show ?thesis
              by (simp add: eval_def Let_def)
          next
            case unb: False
            with False p None argv Forked k(1) show ?thesis
              by (auto simp: eval_def Let_def)
          qed
        qed
      qed
    qed (use assms None argv in \<open>simp_all add: eval_def\<close>)
  qed
qed

lemma tick_inv:
  assumes "ctl_inv (pc s) (jobs s)" and "tick ok s = Some s'"
  shows "ctl_inv (pc s') (jobs s')"
proof (cases "pc s")
  case Idle
  with assms(2) show ?thesis by (simp add: tick_def)
next
  case (Found k fg)
  with assms bgfg_cont_frame [of k fg ok s] show ?thesis by (auto simp: tick_def)
next
  case (Conted k fg)
  with assms show ?thesis
    by (cases fg) (auto simp: tick_def bgfg_set_def fgs_update_other dest: fgs_update_fg [THEN subsetD])
next
  case (FgSet k)
  with assms(1) have "fgs (jobs s) \<subseteq> {k}" by simp
  from waitfg_inv [OF this, of "pid (jobs s ! k)" ok] FgSet assms(2) show ?thesis
    by (simp add: tick_def)
next
  case (BgSet k)
  with assms show ?thesis by (auto simp: tick_def bgfg_print_def Let_def)
next
  case (WaitFg p)
  with assms(1) obtain k where "fgs (jobs s) \<subseteq> {k}" "k \<in> fgs (jobs s) \<longrightarrow> pid (jobs s ! k) = p"
    by auto
  from waitfg_check_inv [OF this] WaitFg assms(2) show ?thesis by (simp add: tick_def)
next
  case Exited
  with assms(2) show ?thesis by (simp add: tick_def)
qed

lemma handler_frames [simp]:
  "jobs (sigint_handler s) = jobs s" "pc (sigint_handler s) = pc s"
  "jobs (sigtstp_handler s) = jobs s" "pc (sigtstp_handler s) = pc s"
  "jobs (sigquit_handler s) = jobs s" "pc (sigquit_handler s) = Exited"
  by (simp_all add: sigint_handler_def sigtstp_handler_def sigquit_handler_def Let_def)

lemma step_inv:
  assumes "ctl_inv (pc s) (jobs s)" and "step a s = Some s'"
  shows "ctl_inv (pc s') (jobs s')"
proof (cases a)
  case (Eval argv bg cmd os)
  with assms(2) have "pc s = Idle" "s' = eval argv bg cmd os s"
    by (auto simp: step_def split: if_splits)
  with assms(1) eval_inv [of s argv bg cmd os] show ?thesis by simp
next
  case (Tick ok)
  with assms(2) have "tick ok s = Some s'" by (simp add: step_def split: if_splits)
  with assms(1) show ?thesis by (rule tick_inv)
next
  case (Chld evs)
  with assms(2) have "sigchld_handler evs s = Some s'" by (simp add: step_def split: if_splits)
  from sigchld_handler_settles [OF this] assms(1) show ?thesis
    by (auto intro: ctl_inv_settles)
next
  case Intr
  with assms show ?thesis by (auto simp: step_def split: if_splits)
next
  case Tstp
  with assms show ?thesis by (auto simp: step_def split: if_splits)
next
  case Quit
  with assms show ?thesis by (auto simp: step_def split: if_splits dest: ctl_inv_Exited)
qed

lemma run_inv:
  "ctl_inv (pc s) (jobs s) \<Longrightarrow> run acts s = Some s' \<Longrightarrow> ctl_inv (pc s') (jobs s')"
proof (induction acts arbitrary: s)
  case Nil
  then show ?case by simp
next
  case (Cons a acts)
  then show ?case by (auto split: option.splits dest: step_inv)
qed

lemma init_inv: "ctl_inv (pc (init_shell v)) (jobs (init_shell v))"
  by (simp add: init_shell_def initjobs_def fgs_def clearjob_def)

lemma ctl_inv_at_most_one: "ctl_inv c js \<Longrightarrow> at_most_one_fg js"
proof -
  assume "ctl_inv c js"
  then have "ctl_inv Exited js" by (rule ctl_inv_Exited)
  then obtain k where "fgs js \<subseteq> {k}" by auto
  then have "\<And>i. i < length js \<Longrightarrow> state (js ! i) = FG \<Longrightarrow> i = k"
    by (auto simp: fgs_def)
  then show ?thesis unfolding at_most_one_fg_def by (rule filter_le_one_intro)
qed

lemma waitfg_jobs [simp]:
  "jobs (waitfg_check p s) = jobs s" "jobs (waitfg ok p s) = jobs s"
  by (simp_all add: waitfg_check_def waitfg_def)

lemma tick_quiet:
  assumes "ctl_inv (pc s) (jobs s)" and "tick ok s = Some s'"
  shows "fgs (jobs s) = {} \<or> jobs s' = jobs s"
proof (cases "pc s")
  case (Found k fg)
  with assms(1) show ?thesis by simp
next
  case (Conted k fg)
  with assms(1) show ?thesis by simp
next
  case (BgSet k)
  with assms(1) show ?thesis by simp
qed (use assms(2) in \<open>auto simp: tick_def\<close>)

lemma step_quiet:
  assumes "ctl_inv (pc s) (jobs s)" and "step a s = Some s'"
  shows "fgs (jobs s) = {} \<or> settles (jobs s) (jobs s')"
proof (cases a)
  case (Eval argv bg cmd os)
  with assms have "pc s = Idle" by (auto simp: step_def split: if_splits)
  with assms(1) show ?thesis by simp
next
  case (Tick ok)
  with assms(2) have "tick ok s = Some s'" by (simp add: step_def split: if_splits)
  from tick_quiet [OF assms(1) this] show ?thesis by auto
next
  case (Chld evs)
  with assms(2) have "sigchld_handler evs s = Some s'" by (simp add: step_def split: if_splits)
  from sigchld_handler_settles [OF this] show ?thesis by simp
qed (use assms(2) in \<open>auto simp: step_def split: if_splits\<close>)

text \<open>
  \<^verbatim>\<open>do_bgfg\<close> run in one go is the command followed by the pieces of the control loop,
  with no handler in between.
\<close>

lemma builtin_bgfg:
  "hd argv = ''fg'' \<or> hd argv = ''bg'' \<Longrightarrow> builtin_cmd argv s = Some (bgfg_begin argv s)"
  by (auto simp: builtin_cmd_def)

lemma do_bgfg_in_pieces:
  assumes idle: "pc s = Idle" and cmd: "hd argv = ''fg'' \<or> hd argv = ''bg''" and ne: "argv \<noteq> []"
  shows "run [Eval argv bg cmdl os] s = Some (do_bgfg argv ko wo s)
    \<or> run [Eval argv bg cmdl os, Tick ko] s = Some (do_bgfg argv ko wo s)
    \<or> run [Eval argv bg cmdl os, Tick ko, Tick True, Tick wo] s = Some (do_bgfg argv ko wo s)"
proof (cases "bgfg_resolve argv (jobs s)")
  case (Inl msg)
  with idle ne builtin_bgfg [OF cmd, of s] show ?thesis
    by (simp add: step_def eval_def bgfg_begin_def do_bgfg_def emit_def)
next
  case (Inr k)
  let ?fg = "hd argv = ''fg''"
  let ?s0 = "s\<lparr>pc := Found k ?fg\<rparr>"
  have e: "step (Eval argv bg cmdl os) s = Some ?s0"
    using idle ne builtin_bgfg [OF cmd, of s] Inr
    by (simp add: step_def eval_def bgfg_begin_def)
  have c: "bgfg_cont k ?fg ko ?s0 = bgfg_cont k ?fg ko s"
    by (simp add: bgfg_cont_def emit_def unix_error_def Let_def)
  have t1: "step (Tick ko) ?s0 = Some (bgfg_cont k ?fg ko s)"
    using c by (simp add: step_def tick_def)
  from bgfg_cont_frame(2) [of k ?fg ko s]
  show ?thesis
  proof
    assume pc1: "pc (bgfg_cont k ?fg ko s) = Exited"
    then have "do_bgfg argv ko wo s = bgfg_cont k ?fg ko s"
      using Inr by (simp add: do_bgfg_def Let_def)
    with e t1 show ?thesis by simp
  next
    assume pc1: "pc (bgfg_cont k ?fg ko s) = Conted k ?fg"
    let ?s1 = "bgfg_cont k ?fg ko s"
    let ?s2 = "bgfg_set k ?fg ?s1"
    have t2: "step (Tick True) ?s1 = Some ?s2" using pc1 by (simp add: step_def tick_def)
    have d: "do_bgfg argv ko wo s = (if ?fg then waitfg wo (pid (jobs ?s2 ! k)) ?s2 else bgfg_print k ?s2)"
      using Inr pc1 by (simp add: do_bgfg_def Let_def)
    have t3: "step (Tick wo) ?s2 = Some (do_bgfg argv ko wo s)"
      unfolding d by (simp add: step_def tick_def bgfg_set_def)
    from e t1 t2 t3 show ?thesis by simp
  qed
qed

section \<open>Empty slots (C10)\<close>

text \<open>
  C10. \<^verbatim>\<open>initjobs\<close>, \<^verbatim>\<open>addjob\<close> and \<^verbatim>\<open>deletejob\<close> keep every slot
  without a pid cleared (job id 0, state \<open>UNDEF\<close>, empty command line). In such a
  table \<^verbatim>\<open>maxjid\<close> is the maximum over the live slots alone, and the slot that
  \<^verbatim>\<open>getjobjid\<close> or \<^verbatim>\<open>getjobpid\<close> returns is live.
\<close>

theorem empty_slots_stay_clear:
  assumes "slots_ok (jobs s)"
  shows "slots_ok (initjobs js0)
    \<and> slots_ok (jobs (snd (addjob p st cmd s)))
    \<and> slots_ok (jobs (snd (deletejob q s)))
    \<and> maxjid (jobs s) = maxjid (filter live (jobs s))
    \<and> (\<forall>k. getjobjid (jobs s) i = Some k \<longrightarrow> live (jobs s ! k))
    \<and> (\<forall>k. getjobpid (jobs s) r = Some k \<longrightarrow> live (jobs s ! k))"
  using assms
  by (simp add: slots_ok_initjobs slots_ok_addjob slots_ok_deletejob maxjid_live
      getjobpid_live getjobjid_live)

theorem empty_slots_stay_clear_witness:
  "slots_ok (jobs demo_shell)
    \<and> slots_ok (initjobs (jobs demo_shell))
    \<and> slots_ok (jobs (snd (addjob 13 BG ''c\<newline>'' demo_shell)))
    \<and> slots_ok (jobs (snd (deletejob 12 demo_shell)))
    \<and> maxjid (jobs demo_shell) = maxjid (filter live (jobs demo_shell))
    \<and> getjobjid (jobs demo_shell) 2 = Some 1 \<and> live (jobs demo_shell ! 1)
    \<and> getjobpid (jobs demo_shell) 12 = Some 1"
proof -
  have h: "slots_ok (jobs demo_shell)" by code_simp
  have j: "getjobjid (jobs demo_shell) 2 = Some 1" by code_simp
  have p: "getjobpid (jobs demo_shell) 12 = Some 1" by code_simp
  from empty_slots_stay_clear [OF h, of "jobs demo_shell" 13 BG "''c\<newline>''" 12 2 12] h j p
  show ?thesis by simp
qed

section \<open>The full table (C5)\<close>

text \<open>
  C5 (as amended). When all sixteen slots are live, \<^verbatim>\<open>addjob\<close> returns false for
  every pid and changes neither a slot nor \<^verbatim>\<open>nextjid\<close>. For a pid of at least 1
  it prints \<^verbatim>\<open>Tried to create too many jobs\<close> and returns; for a pid below 1 the
  guard at the top of the function returns before anything is printed.
\<close>

theorem addjob_table_full:
  assumes "length (jobs s) = MAXJOBS" and "list_all live (jobs s)"
  shows "fst (addjob p st cmd s) = False
    \<and> jobs (snd (addjob p st cmd s)) = jobs s
    \<and> nextjid (snd (addjob p st cmd s)) = nextjid s
    \<and> pc (snd (addjob p st cmd s)) = pc s
    \<and> trace (snd (addjob p st cmd s)) =
        trace s @ (if p < 1 then [] else [Printf ''Tried to create too many jobs\<newline>''])"
proof -
  have "find_slot (\<lambda>j. pid j = 0) (jobs s) = None"
    using assms(2) by (simp add: find_slot_None_iff list_all_iff live_def)
  then show ?thesis by (simp add: addjob_def emit_def)
qed

theorem addjob_table_full_witness:
  "length (jobs full_shell) = MAXJOBS \<and> list_all live (jobs full_shell)
    \<and> fst (addjob 17 BG ''ls &\<newline>'' full_shell) = False
    \<and> jobs (snd (addjob 17 BG ''ls &\<newline>'' full_shell)) = jobs full_shell
    \<and> nextjid (snd (addjob 17 BG ''ls &\<newline>'' full_shell)) = nextjid full_shell
    \<and> trace (snd (addjob 17 BG ''ls &\<newline>'' full_shell)) =
        trace full_shell @ [Printf ''Tried to create too many jobs\<newline>'']"
proof -
  have h: "length (jobs full_shell) = MAXJOBS" "list_all live (jobs full_shell)"
    by code_simp+
  from addjob_table_full [OF h, of 17 BG "''ls &\<newline>''"] h show ?thesis by simp
qed

text \<open>
  The claim as stated promises a report for every pid. \<^verbatim>\<open>eval\<close> passes the -1 of
  a failed \<^verbatim>\<open>fork\<close> to \<^verbatim>\<open>addjob\<close>; on the full table the call fails and
  nothing is printed.
\<close>

theorem addjob_table_full_silent_counterexample:
  "length (jobs full_shell) = MAXJOBS \<and> list_all live (jobs full_shell)
    \<and> fst (addjob (- 1) FG ''ls\<newline>'' full_shell) = False
    \<and> trace (snd (addjob (- 1) FG ''ls\<newline>'' full_shell)) = trace full_shell
    \<and> trace full_shell = []"
  by code_simp

section \<open>Unique pids and job ids (C2)\<close>

text \<open>
  C2 (as amended). Take any sequence of \<^verbatim>\<open>addjob\<close> and \<^verbatim>\<open>deletejob\<close> calls from
  the initialised table. If no \<^verbatim>\<open>addjob\<close> is given a pid that a live slot already
  holds, no two live slots hold the same pid. If no \<^verbatim>\<open>addjob\<close> succeeds between an
  \<^verbatim>\<open>addjob\<close> that succeeds and leaves a job id of \<^verbatim>\<open>MAXJOBS\<close> or more in the table
  (\<^verbatim>\<open>nextjid\<close> is back at 1 then) and the next \<^verbatim>\<open>deletejob\<close> that succeeds (which
  sets \<^verbatim>\<open>nextjid\<close> anew), no two live slots hold the same job id; this is so in
  particular for every sequence with at most \<^verbatim>\<open>MAXJOBS\<close> calls of \<^verbatim>\<open>addjob\<close>.
\<close>

theorem live_ids_distinct:
  "(pids_fresh ops (init_shell v) \<longrightarrow> distinct (live_pids (jobs (run_ops ops (init_shell v)))))
   \<and> (no_add_after_wrap False ops (init_shell v) \<longrightarrow>
        distinct (live_jids (jobs (run_ops ops (init_shell v)))))
   \<and> (adds ops \<le> MAXJOBS \<longrightarrow> distinct (live_jids (jobs (run_ops ops (init_shell v)))))"
proof -
  have "distinct (live_pids (jobs (init_shell v)))" "distinct (live_jids (jobs (init_shell v)))"
    by (simp_all add: live_pids_def live_jids_def init_no_live)
  note start = this
  have jids: "no_add_after_wrap False ops (init_shell v) \<Longrightarrow>
      distinct (live_jids (jobs (run_ops ops (init_shell v))))"
    using start(2) init_ahead [of v] by (intro no_add_after_wrap_distinct) simp_all
  from start(1) jids at_most_maxjobs_adds [of ops v] show ?thesis
    by (auto intro: pids_fresh_distinct)
qed

theorem live_ids_distinct_witness:
  "pids_fresh wrap_ops (init_shell False) \<and> no_add_after_wrap False wrap_ops (init_shell False)
   \<and> distinct (live_pids (jobs (run_ops wrap_ops (init_shell False))))
   \<and> distinct (live_jids (jobs (run_ops wrap_ops (init_shell False))))
   \<and> no_add_after_wrap False seventeen_adds (init_shell False)
   \<and> distinct (live_jids (jobs (run_ops seventeen_adds (init_shell False))))
   \<and> adds [Add 1 BG ''a &\<newline>'', Add 2 BG ''b &\<newline>'', Del 1, Add 3 BG ''c &\<newline>''] \<le> MAXJOBS
   \<and> distinct (live_jids (jobs (run_ops
        [Add 1 BG ''a &\<newline>'', Add 2 BG ''b &\<newline>'', Del 1, Add 3 BG ''c &\<newline>'']
        (init_shell False))))"
proof -
  have h: "pids_fresh wrap_ops (init_shell False)" "no_add_after_wrap False wrap_ops (init_shell False)"
    "no_add_after_wrap False seventeen_adds (init_shell False)"
    "adds [Add 1 BG ''a &\<newline>'', Add 2 BG ''b &\<newline>'', Del 1, Add 3 BG ''c &\<newline>''] \<le> MAXJOBS"
    by code_simp+
  from live_ids_distinct [of wrap_ops False] live_ids_distinct [of seventeen_adds False]
    live_ids_distinct [of "[Add 1 BG ''a &\<newline>'', Add 2 BG ''b &\<newline>'', Del 1, Add 3 BG ''c &\<newline>'']" False]
    h
  show ?thesis by simp
qed

text \<open>
  \<^verbatim>\<open>addjob\<close> does not look for the pid in the table: the claim as stated fails for
  the sequence that adds the pid 5 twice.
\<close>

theorem same_pid_twice_counterexample:
  "live_pids (jobs (run_ops [Add 5 BG ''a &\<newline>'', Add 5 BG ''b &\<newline>''] (init_shell False))) = [5, 5]"
  by code_simp

text \<open>
  After the wrap of \<^verbatim>\<open>nextjid\<close> at \<^verbatim>\<open>MAXJOBS\<close> the next job gets the job id 1
  although the job with the pid 1 still holds it; all pids are distinct here.
\<close>

theorem jid_collision_after_wrap:
  "live_pids (jobs (run_ops (wrap_ops @ [Add 18 BG ''ps &\<newline>'']) (init_shell False)))
     = [1, 17, 18, 4, 5, 6, 7, 8, 9, 10, 11, 12, 13, 14, 15, 16]
   \<and> live_jids (jobs (run_ops (wrap_ops @ [Add 18 BG ''ps &\<newline>'']) (init_shell False)))
     = [1, 17, 1, 4, 5, 6, 7, 8, 9, 10, 11, 12, 13, 14, 15, 16]"
  by code_simp


section \<open>The job id after the highest one is freed (C4)\<close>

text \<open>
  C4 (as amended). When the job that alone holds the highest job id \<open>M\<close> is deleted, the
  next \<^verbatim>\<open>addjob\<close> (with a pid of at least 1) succeeds and gives the new job the
  highest remaining job id plus 1, which is at most \<open>M\<close>.
\<close>

theorem next_jid_after_deleting_max:
  assumes tracked: "getjobpid (jobs s) p = Some k"
    and top: "jid (jobs s ! k) = maxjid (jobs s)"
    and pos: "1 \<le> jid (jobs s ! k)"
    and alone: "\<forall>i<length (jobs s). i \<noteq> k \<longrightarrow> jid (jobs s ! i) \<noteq> maxjid (jobs s)"
    and q: "1 \<le> q"
  shows "fst (addjob q st cmd (snd (deletejob p s)))
    \<and> (\<exists>i<length (jobs s). pid (jobs (snd (deletejob p s)) ! i) = 0
         \<and> jobs (snd (addjob q st cmd (snd (deletejob p s)))) ! i
             = \<lparr>pid = q, jid = maxjid (jobs (snd (deletejob p s))) + 1, state = st, cmdline = cmd\<rparr>)
    \<and> maxjid (jobs (snd (deletejob p s))) + 1 \<le> maxjid (jobs s)"
proof -
  let ?s1 = "snd (deletejob p s)"
  from tracked have p: "1 \<le> p" and fk: "find_slot (\<lambda>j. pid j = p) (jobs s) = Some k"
    by (auto simp: getjobpid_def split: if_splits)
  from find_slot_SomeD [OF fk] have k: "k < length (jobs s)" by simp
  have js1: "jobs ?s1 = (jobs s)[k := clearjob (jobs s ! k)]"
    and n1: "nextjid ?s1 = maxjid (jobs ?s1) + 1"
    using p fk by (simp_all add: deletejob_def Let_def)
  have "clearjob (jobs s ! k) \<in> set (jobs ?s1)"
    unfolding js1 using k by (rule set_update_memI)
  moreover have "pid (clearjob (jobs s ! k)) = 0" by (simp add: clearjob_def)
  ultimately have "find_slot (\<lambda>j. pid j = 0) (jobs ?s1) \<noteq> None"
    unfolding find_slot_None_iff by blast
  then obtain i where fi: "find_slot (\<lambda>j. pid j = 0) (jobs ?s1) = Some i" by auto
  from find_slot_SomeD [OF fi] have i: "i < length (jobs s)" "pid (jobs ?s1 ! i) = 0"
    by simp_all
  have added: "fst (addjob q st cmd ?s1)"
    "jobs (snd (addjob q st cmd ?s1)) ! i
       = \<lparr>pid = q, jid = maxjid (jobs ?s1) + 1, state = st, cmdline = cmd\<rparr>"
    using q fi i(1) n1 by (simp_all add: addjob_def emit_def Let_def job_fields)
  have "\<forall>j\<in>set (jobs ?s1). jid j \<le> maxjid (jobs s) - 1"
  proof
    fix j assume "j \<in> set (jobs ?s1)"
    then obtain a where a: "a < length (jobs s)" "j = jobs ?s1 ! a"
      by (auto simp: in_set_conv_nth)
    show "jid j \<le> maxjid (jobs s) - 1"
    proof (cases "a = k")
      case True
      with a k pos top show ?thesis by (simp add: js1 clearjob_def)
    next
      case False
      with a have "j = jobs s ! a" by (simp add: js1)
      moreover have "jid (jobs s ! a) \<le> maxjid (jobs s)"
        using a(1) by (intro maxjid_ge nth_mem)
      moreover have "jid (jobs s ! a) \<noteq> maxjid (jobs s)"
        using alone a(1) False by simp
      ultimately show ?thesis by simp
    qed
  qed
  moreover have "0 \<le> maxjid (jobs s) - 1" using pos top by simp
  ultimately have "maxjid (jobs ?s1) \<le> maxjid (jobs s) - 1" by (intro maxjid_le)
  with added i show ?thesis by auto
qed

theorem next_jid_after_deleting_max_witness:
  "getjobpid (jobs gap_shell) 3 = Some 2
    \<and> jid (jobs gap_shell ! 2) = maxjid (jobs gap_shell)
    \<and> fst (addjob 9 BG ''d &\<newline>'' (snd (deletejob 3 gap_shell)))
    \<and> (\<exists>i<length (jobs gap_shell). pid (jobs (snd (deletejob 3 gap_shell)) ! i) = 0
         \<and> jobs (snd (addjob 9 BG ''d &\<newline>'' (snd (deletejob 3 gap_shell)))) ! i
             = \<lparr>pid = 9, jid = maxjid (jobs (snd (deletejob 3 gap_shell))) + 1, state = BG,
                 cmdline = ''d &\<newline>''\<rparr>)
    \<and> maxjid (jobs (snd (deletejob 3 gap_shell))) + 1 \<le> maxjid (jobs gap_shell)"
proof -
  have h: "getjobpid (jobs gap_shell) 3 = Some 2"
    "jid (jobs gap_shell ! 2) = maxjid (jobs gap_shell)"
    "1 \<le> jid (jobs gap_shell ! 2)"
    by code_simp+
  have len: "length (jobs gap_shell) = 16" by code_simp
  have alone: "\<forall>i<length (jobs gap_shell). i \<noteq> 2 \<longrightarrow> jid (jobs gap_shell ! i) \<noteq> maxjid (jobs gap_shell)"
  proof -
    have "list_all (\<lambda>i. i \<noteq> 2 \<longrightarrow> jid (jobs gap_shell ! i) \<noteq> maxjid (jobs gap_shell)) [0..<16]"
      by code_simp
    then show ?thesis by (simp add: len list_all_iff)
  qed
  from next_jid_after_deleting_max [OF h alone, of 9 BG "''d &\<newline>''"] h
  show ?thesis by simp
qed

text \<open>
  The claim as stated says the next job id equals \<open>M\<close>. With the job ids 1 and 3 in
  use, deleting the job with the id 3 makes the next job id 2.
\<close>

theorem next_jid_below_max_counterexample:
  "maxjid (jobs gap_shell) = 3 \<and> pid2jid (jobs gap_shell) 3 = 3
   \<and> pid2jid (jobs (snd (addjob 9 BG ''d &\<newline>'' (snd (deletejob 3 gap_shell))))) 9 = 2"
  by code_simp


section \<open>A child killed by a signal (C3)\<close>

text \<open>
  C3. For a child in the table that a signal terminated, one round of
  \<^verbatim>\<open>sigchld_handler\<close> writes, with \<^verbatim>\<open>sio_puts\<close> and \<^verbatim>\<open>sio_putl\<close> only, the
  job id, the pid and a signal name, and clears the slot. The signal name written is
  \<^verbatim>\<open>SIGINT\<close> whatever signal \<open>sg\<close> terminated the child: the status is not looked
  at, unlike in the branch for stopped children, which reads \<^verbatim>\<open>signame[WSTOPSIG(status)]\<close>.
\<close>

theorem sigchld_signaled_line:
  assumes "getjobpid (jobs s) p = Some k"
  shows "sigchld_child p (WSignaled sg) s =
     Some (s\<lparr>jobs := (jobs s)[k := clearjob (jobs s ! k)],
             nextjid := maxjid ((jobs s)[k := clearjob (jobs s ! k)]) + 1,
             trace := trace s @ [Sio ''Job ['', Sio (sio_ltoa (jid (jobs s ! k)) 10), Sio ''] ('',
                 Sio (sio_ltoa p 10), Sio '') terminated by signal SIGINT'', Sio ''\<newline>'']\<rparr>)"
proof -
  let ?s6 = "s\<lparr>trace := trace s @ [Sio ''Job ['', Sio (sio_ltoa (jid (jobs s ! k)) 10), Sio ''] ('',
                 Sio (sio_ltoa p 10), Sio '') terminated by signal SIGINT'', Sio ''\<newline>'']\<rparr>"
  have "sigchld_child p (WSignaled sg) s = Some (snd (deletejob p ?s6))"
    using assms
    by (simp add: sigchld_child_def sio_puts_def sio_putl_def emit_def Let_def pid2jid_tracked)
  moreover have "getjobpid (jobs ?s6) p = Some k" using assms by simp
  ultimately show ?thesis by (simp add: deletejob_tracked)
qed

text \<open>The job with the pid 12 is killed by the signal 9 (\<^verbatim>\<open>KILL\<close>); the line says \<^verbatim>\<open>SIGINT\<close>.\<close>

theorem sigchld_signaled_line_witness:
  "getjobpid (jobs demo_shell) 12 = Some 1 \<and> signame ! 9 = ''KILL''
   \<and> sigchld_handler [(12, WSignaled 9)] demo_shell =
     Some (demo_shell\<lparr>jobs := (jobs demo_shell)[1 := clearjob (jobs demo_shell ! 1)],
             nextjid := 1,
             trace := [Sio ''Job ['', Sio ''2'', Sio ''] ('', Sio ''12'',
                       Sio '') terminated by signal SIGINT'', Sio ''\<newline>'']\<rparr>)"
proof -
  have h: "getjobpid (jobs demo_shell) 12 = Some 1" by code_simp
  have e: "sio_ltoa (jid (jobs demo_shell ! 1)) 10 = ''2''" "sio_ltoa 12 10 = ''12''"
    "trace demo_shell = []" "maxjid ((jobs demo_shell)[1 := clearjob (jobs demo_shell ! 1)]) + 1 = 1"
    "signame ! 9 = ''KILL''"
    by code_simp+
  from sigchld_signaled_line [OF h, of 9] e h show ?thesis by simp
qed


section \<open>The handlers of ctrl-c and ctrl-z (C9)\<close>

text \<open>
  C9. \<^verbatim>\<open>sigint_handler\<close> and \<^verbatim>\<open>sigtstp_handler\<close> change nothing but the
  trace: no field of any slot, not \<^verbatim>\<open>nextjid\<close>. In a table with at most one
  \<open>FG\<close> slot, when a live slot is \<open>FG\<close> they send one signal (\<^verbatim>\<open>SIGINT\<close>,
  \<^verbatim>\<open>SIGTSTP\<close>) to the negated pid of that slot, the process group of the job.
  When no live slot is \<open>FG\<close> they do nothing at all.
\<close>

theorem interrupt_suspend_frame:
  "sigint_handler s = s\<lparr>trace := trace (sigint_handler s)\<rparr>
   \<and> sigtstp_handler s = s\<lparr>trace := trace (sigtstp_handler s)\<rparr>
   \<and> (\<forall>k<length (jobs s). at_most_one_fg (jobs s) \<and> state (jobs s ! k) = FG \<and> live (jobs s ! k) \<longrightarrow>
        trace (sigint_handler s) = trace s @ [Kill (- pid (jobs s ! k)) SIGINT]
        \<and> trace (sigtstp_handler s) = trace s @ [Kill (- pid (jobs s ! k)) SIGTSTP])
   \<and> ((\<forall>j\<in>set (jobs s). state j = FG \<longrightarrow> \<not> live j) \<longrightarrow>
        sigint_handler s = s \<and> sigtstp_handler s = s)"
proof (intro conjI allI impI)
  show "sigint_handler s = s\<lparr>trace := trace (sigint_handler s)\<rparr>"
    by (simp add: sigint_handler_def emit_def Let_def)
  show "sigtstp_handler s = s\<lparr>trace := trace (sigtstp_handler s)\<rparr>"
    by (simp add: sigtstp_handler_def emit_def Let_def)
next
  fix k
  assume k: "k < length (jobs s)"
    and h: "at_most_one_fg (jobs s) \<and> state (jobs s ! k) = FG \<and> live (jobs s ! k)"
  then have "fgpid (jobs s) = pid (jobs s ! k)" "pid (jobs s ! k) \<noteq> 0"
    by (simp_all add: fgpid_only_fg live_def)
  then show "trace (sigint_handler s) = trace s @ [Kill (- pid (jobs s ! k)) SIGINT]"
    "trace (sigtstp_handler s) = trace s @ [Kill (- pid (jobs s ! k)) SIGTSTP]"
    by (simp_all add: sigint_handler_def sigtstp_handler_def emit_def)
next
  assume "\<forall>j\<in>set (jobs s). state j = FG \<longrightarrow> \<not> live j"
  then have "fgpid (jobs s) = 0" by (intro fgpid_no_live_fg) (simp add: live_def)
  then show "sigint_handler s = s" "sigtstp_handler s = s"
    by (simp_all add: sigint_handler_def sigtstp_handler_def)
qed

theorem interrupt_suspend_frame_witness:
  "at_most_one_fg (jobs fg_shell) \<and> state (jobs fg_shell ! 1) = FG \<and> live (jobs fg_shell ! 1)
   \<and> sigint_handler fg_shell = fg_shell\<lparr>trace := trace fg_shell @ [Kill (- 7) SIGINT]\<rparr>
   \<and> sigtstp_handler fg_shell = fg_shell\<lparr>trace := trace fg_shell @ [Kill (- 7) SIGTSTP]\<rparr>
   \<and> sigint_handler demo_shell = demo_shell \<and> sigtstp_handler demo_shell = demo_shell"
proof -
  have h: "at_most_one_fg (jobs fg_shell)" "state (jobs fg_shell ! 1) = FG" "live (jobs fg_shell ! 1)"
    "pid (jobs fg_shell ! 1) = 7"
    by code_simp+
  have len: "1 < length (jobs fg_shell)" by code_simp
  have none: "\<forall>j\<in>set (jobs demo_shell). state j = FG \<longrightarrow> \<not> live j"
  proof -
    have "list_all (\<lambda>j. state j = FG \<longrightarrow> \<not> live j) (jobs demo_shell)" by code_simp
    then show ?thesis by (simp add: list_all_iff)
  qed
  from interrupt_suspend_frame [of fg_shell] h len
  have "sigint_handler fg_shell = fg_shell\<lparr>trace := trace fg_shell @ [Kill (- 7) SIGINT]\<rparr>"
    "sigtstp_handler fg_shell = fg_shell\<lparr>trace := trace fg_shell @ [Kill (- 7) SIGTSTP]\<rparr>"
    by metis+
  moreover from interrupt_suspend_frame [of demo_shell] none
  have "sigint_handler demo_shell = demo_shell \<and> sigtstp_handler demo_shell = demo_shell"
    by blast
  ultimately show ?thesis using h by simp
qed


section \<open>The errors of fg and bg (C8)\<close>



section \<open>bg on a stopped job (C7)\<close>

text \<open>
  C7 (as amended). Let the token of \<^verbatim>\<open>bg\<close> resolve to a stopped job: the job is the
  first slot with the pid the token gives, or the token is \<^verbatim>\<open>%\<close> and a job id and the
  job is the first slot with that job id and the first slot with its pid. Let no signal
  handler run before \<^verbatim>\<open>do_bgfg\<close> returns. Then \<^verbatim>\<open>do_bgfg\<close> first sends
  \<^verbatim>\<open>SIGCONT\<close> to the negated pid of the job, the table still unchanged. When
  \<^verbatim>\<open>kill\<close> succeeds it then sets the state of the job to \<open>BG\<close>, prints
  \<^verbatim>\<open>[jid] (pid) cmdline\<close> and returns: the control loop is \<open>Idle\<close>, not waiting. When
  \<^verbatim>\<open>kill\<close> fails the shell reports the error and ends.
\<close>

theorem bg_resumes_stopped_job:
  assumes named: "target tok (jobs s) = Some k"
    and token: "is_pid_token tok \<or> (is_jid_token tok \<and> getjobpid (jobs s) (pid (jobs s ! k)) = Some k)"
    and stopped: "state (jobs s ! k) = ST"
  shows "bgfg_cont k False True s =
        s\<lparr>trace := trace s @ [Kill (- pid (jobs s ! k)) SIGCONT], pc := Conted k False\<rparr>
    \<and> do_bgfg (''bg'' # tok # rest) True wo s =
        s\<lparr>jobs := (jobs s)[k := (jobs s ! k)\<lparr>state := BG\<rparr>],
          trace := trace s @ [Kill (- pid (jobs s ! k)) SIGCONT,
             Printf (''['' @ fmt_d (jid (jobs s ! k)) @ ''] ('' @ fmt_d (pid (jobs s ! k)) @ '') ''
                     @ cmdline (jobs s ! k))],
          pc := Idle\<rparr>
    \<and> do_bgfg (''bg'' # tok # rest) False wo s =
        s\<lparr>trace := trace s @ [Kill (- pid (jobs s ! k)) SIGCONT, UnixError ''kill call failed''],
          pc := Exited\<rparr>"
proof -
  have own: "getjobpid (jobs s) (pid (jobs s ! k)) = Some k"
  proof (cases "is_jid_token tok")
    case True
    with token jid_token_not_pid show ?thesis by blast
  next
    case False
    with named have "getjobpid (jobs s) (atoi tok) = Some k" by (simp add: target_def)
    moreover from this have "pid (jobs s ! k) = atoi tok" by (simp add: getjobpid_live)
    ultimately show ?thesis by simp
  qed
  then have k: "k < length (jobs s)" by (simp add: getjobpid_live)
  have res: "bgfg_resolve (''bg'' # tok # rest) (jobs s) = Inr k"
    using named token by (subst bgfg_resolve_wellformed) auto
  have cont: "bgfg_cont k False True s
      = s\<lparr>trace := trace s @ [Kill (- pid (jobs s ! k)) SIGCONT], pc := Conted k False\<rparr>"
    using stopped by (simp add: bgfg_cont_def emit_def)
  have fail: "bgfg_cont k False False s
      = s\<lparr>trace := trace s @ [Kill (- pid (jobs s ! k)) SIGCONT, UnixError ''kill call failed''],
          pc := Exited\<rparr>"
    using stopped by (simp add: bgfg_cont_def emit_def unix_error_def)
  have "do_bgfg (''bg'' # tok # rest) True wo s
      = bgfg_print k (bgfg_set k False
          (s\<lparr>trace := trace s @ [Kill (- pid (jobs s ! k)) SIGCONT], pc := Conted k False\<rparr>))"
    by (simp add: do_bgfg_def res cont)
  also have "\<dots> = s\<lparr>jobs := (jobs s)[k := (jobs s ! k)\<lparr>state := BG\<rparr>],
          trace := trace s @ [Kill (- pid (jobs s ! k)) SIGCONT,
             Printf (''['' @ fmt_d (jid (jobs s ! k)) @ ''] ('' @ fmt_d (pid (jobs s ! k)) @ '') ''
                     @ cmdline (jobs s ! k))],
          pc := Idle\<rparr>"
    using k pid2jid_state_update [OF own, of BG]
    by (simp add: bgfg_print_def bgfg_set_def emit_def Let_def)
  finally have ok: "do_bgfg (''bg'' # tok # rest) True wo s =
        s\<lparr>jobs := (jobs s)[k := (jobs s ! k)\<lparr>state := BG\<rparr>],
          trace := trace s @ [Kill (- pid (jobs s ! k)) SIGCONT,
             Printf (''['' @ fmt_d (jid (jobs s ! k)) @ ''] ('' @ fmt_d (pid (jobs s ! k)) @ '') ''
                     @ cmdline (jobs s ! k))],
          pc := Idle\<rparr>" .
  have "do_bgfg (''bg'' # tok # rest) False wo s = bgfg_cont k False False s"
    by (simp add: do_bgfg_def res fail)
  with cont ok fail show ?thesis by simp
qed

theorem bg_resumes_stopped_job_witness:
  "state (jobs demo_shell ! 1) = ST
   \<and> do_bgfg [''bg'', ''12''] True True demo_shell =
      demo_shell\<lparr>jobs := (jobs demo_shell)[1 := (jobs demo_shell ! 1)\<lparr>state := BG\<rparr>],
          trace := [Kill (- 12) SIGCONT, Printf ''[2] (12) b\<newline>''], pc := Idle\<rparr>
   \<and> do_bgfg [''bg'', ''%2''] True True demo_shell =
      demo_shell\<lparr>jobs := (jobs demo_shell)[1 := (jobs demo_shell ! 1)\<lparr>state := BG\<rparr>],
          trace := [Kill (- 12) SIGCONT, Printf ''[2] (12) b\<newline>''], pc := Idle\<rparr>
   \<and> do_bgfg [''bg'', ''12''] False True demo_shell =
      demo_shell\<lparr>trace := [Kill (- 12) SIGCONT, UnixError ''kill call failed''], pc := Exited\<rparr>"
proof -
  have st: "state (jobs demo_shell ! 1) = ST" by code_simp
  have own: "getjobpid (jobs demo_shell) (pid (jobs demo_shell ! 1)) = Some 1" by code_simp
  have tp: "is_pid_token ''12''" unfolding is_pid_token_def by code_simp
  have tj: "is_jid_token ''%2''" by (simp add: is_jid_token_def isdigit_def)
  have np: "target ''12'' (jobs demo_shell) = Some 1"
  proof -
    have "\<not> is_jid_token ''12''" by (simp add: is_jid_token_def)
    moreover have "getjobpid (jobs demo_shell) (atoi ''12'') = Some 1" by code_simp
    ultimately show ?thesis by (simp add: target_def)
  qed
  have nj: "target ''%2'' (jobs demo_shell) = Some 1"
  proof -
    have "getjobjid (jobs demo_shell) (atoi ''2'') = Some 1" by code_simp
    with tj show ?thesis by (simp add: target_def)
  qed
  have e: "trace demo_shell = []"
    "''['' @ fmt_d (jid (jobs demo_shell ! 1)) @ ''] ('' @ fmt_d (pid (jobs demo_shell ! 1)) @ '') ''
       @ cmdline (jobs demo_shell ! 1) = ''[2] (12) b\<newline>''"
    "pid (jobs demo_shell ! 1) = 12"
    by code_simp+
  from bg_resumes_stopped_job [OF np _ st, of "[]" True] bg_resumes_stopped_job [OF nj _ st, of "[]" True]
    tp tj own e st
  show ?thesis by simp
qed

text \<open>
  The claim as stated speaks of every stopped job that \<^verbatim>\<open>bg\<close> is given. First run:
  the stopped job with the pid 18 has the job id 1, as the running job with the pid 1
  has; \<^verbatim>\<open>bg %1\<close> finds the job with the pid 1, sends no signal, prints the line of
  that job and leaves the job with the pid 18 stopped. Second run: the stopped job with the
  pid 12 exits right after the \<^verbatim>\<open>SIGCONT\<close> of \<^verbatim>\<open>bg 12\<close>, and
  \<^verbatim>\<open>sigchld_handler\<close> clears its slot before \<^verbatim>\<open>do_bgfg\<close> goes on; the cleared slot
  gets the state \<open>BG\<close> and the line printed is \<^verbatim>\<open>[0] (0)\<close> without a command.
\<close>

theorem bg_misses_stopped_job_counterexample:
  "run collide_run (init_shell False) \<noteq> None
   \<and> pc (the (run collide_run (init_shell False))) = Idle
   \<and> pid (jobs (the (run collide_run (init_shell False))) ! 2) = 18
   \<and> jid (jobs (the (run collide_run (init_shell False))) ! 2) = 1
   \<and> state (jobs (the (run collide_run (init_shell False))) ! 2) = ST
   \<and> state (jobs (do_bgfg [''bg'', ''%1''] True True (the (run collide_run (init_shell False)))) ! 2) = ST
   \<and> trace (do_bgfg [''bg'', ''%1''] True True (the (run collide_run (init_shell False))))
       = trace (the (run collide_run (init_shell False))) @ [Printf ''[1] (1) sleep 9 &\<newline>'']
   \<and> run (take 4 exit_run) (init_shell False) \<noteq> None
   \<and> take 1 (jobs (the (run (take 4 exit_run) (init_shell False))))
       = [\<lparr>pid = 12, jid = 1, state = ST, cmdline = ''cat\<newline>''\<rparr>]
   \<and> run exit_run (init_shell False) \<noteq> None
   \<and> pc (the (run exit_run (init_shell False))) = Idle
   \<and> take 1 (jobs (the (run exit_run (init_shell False))))
       = [\<lparr>pid = 0, jid = 0, state = BG, cmdline = []\<rparr>]
   \<and> drop 8 (trace (the (run exit_run (init_shell False))))
       = [Kill (- 12) SIGCONT, Printf ''[0] (0) '']"
  by code_simp


section \<open>At most one foreground job (C1)\<close>

text \<open>
  C1. In every state the shell reaches from its start, by any interleaving of commands
  (launches, \<^verbatim>\<open>fg\<close>, \<^verbatim>\<open>bg\<close>, \<^verbatim>\<open>jobs\<close>), of the pieces of \<^verbatim>\<open>do_bgfg\<close> and
  \<^verbatim>\<open>waitfg\<close>, and of the four signal handlers, at most one slot of the job table has
  the state \<open>FG\<close>.
\<close>

theorem at_most_one_foreground:
  "run acts (init_shell v) = Some s \<Longrightarrow> at_most_one_fg (jobs s)"
  using run_inv [OF init_inv] ctl_inv_at_most_one by blast

theorem at_most_one_foreground_witness:
  "run demo_run (init_shell False) \<noteq> None
   \<and> pc (the (run demo_run (init_shell False))) = WaitFg 5
   \<and> map state (take 3 (jobs (the (run demo_run (init_shell False))))) = [FG, ST, UNDEF]
   \<and> at_most_one_fg (jobs (the (run demo_run (init_shell False))))"
proof -
  have r: "run demo_run (init_shell False) \<noteq> None" by code_simp
  then have "run demo_run (init_shell False) = Some (the (run demo_run (init_shell False)))"
    by simp
  from at_most_one_foreground [OF this]
  have "at_most_one_fg (jobs (the (run demo_run (init_shell False))))" .
  moreover have "pc (the (run demo_run (init_shell False))) = WaitFg 5"
    "map state (take 3 (jobs (the (run demo_run (init_shell False))))) = [FG, ST, UNDEF]"
    by code_simp+
  ultimately show ?thesis using r by simp
qed


section \<open>Foreground and background (C6)\<close>

text \<open>
  C6 (as amended). In every execution from the start of the shell no step changes the
  state of a slot from \<open>FG\<close> to \<open>BG\<close>: a foreground job leaves the foreground by being
  stopped or removed.
\<close>

theorem no_foreground_to_background:
  assumes "run acts (init_shell v) = Some s" and "step a s = Some s'"
  shows "\<forall>k<length (jobs s). \<not> (state (jobs s ! k) = FG \<and> state (jobs s' ! k) = BG)"
proof (intro allI impI)
  fix k assume k: "k < length (jobs s)"
  have inv: "ctl_inv (pc s) (jobs s)" using run_inv [OF init_inv assms(1)] .
  from step_quiet [OF inv assms(2)]
  show "\<not> (state (jobs s ! k) = FG \<and> state (jobs s' ! k) = BG)"
  proof
    assume "fgs (jobs s) = {}"
    with k show ?thesis by (auto simp: fgs_def)
  next
    assume "settles (jobs s) (jobs s')"
    with k have "jobs s' ! k = jobs s ! k \<or> state (jobs s' ! k) = UNDEF \<or> state (jobs s' ! k) = ST"
      by (simp add: settles_def)
    then show ?thesis by auto
  qed
qed

theorem no_foreground_to_background_witness:
  "run fg_run (init_shell False) \<noteq> None
   \<and> step (Chld [(7, WStopped 20)]) (the (run fg_run (init_shell False))) \<noteq> None
   \<and> state (jobs (the (run fg_run (init_shell False))) ! 0) = FG
   \<and> state (jobs (the (step (Chld [(7, WStopped 20)]) (the (run fg_run (init_shell False))))) ! 0) = ST
   \<and> state (jobs (the (step (Chld [(7, WStopped 20)]) (the (run fg_run (init_shell False))))) ! 0) \<noteq> BG"
proof -
  let ?s = "the (run fg_run (init_shell False))"
  let ?s' = "the (step (Chld [(7, WStopped 20)]) ?s)"
  have r: "run fg_run (init_shell False) \<noteq> None" by code_simp
  have t: "step (Chld [(7, WStopped 20)]) ?s \<noteq> None" by code_simp
  have e: "state (jobs ?s ! 0) = FG" "state (jobs ?s' ! 0) = ST" "0 < length (jobs ?s)"
    by code_simp+
  from r have r': "run fg_run (init_shell False) = Some ?s" by simp
  from t have t': "step (Chld [(7, WStopped 20)]) ?s = Some ?s'" by simp
  from no_foreground_to_background [OF r' t'] e have "state (jobs ?s' ! 0) \<noteq> BG" by blast
  with r t e show ?thesis by simp
qed

text \<open>
  The claim as stated also excludes the direct change from \<open>BG\<close> to \<open>FG\<close>. That change
  is what \<^verbatim>\<open>fg\<close> does to a background job (the transition \<^verbatim>\<open>BG -> FG : fg command\<close>
  of the comment at the top of the source): the job with the pid 5 goes from \<open>BG\<close> to
  \<open>FG\<close> in one step.
\<close>

theorem background_to_foreground_counterexample:
  "run bg_then_fg (init_shell False) \<noteq> None
   \<and> step (Tick True) (the (run bg_then_fg (init_shell False))) \<noteq> None
   \<and> pid (jobs (the (run bg_then_fg (init_shell False))) ! 0) = 5
   \<and> state (jobs (the (run bg_then_fg (init_shell False))) ! 0) = BG
   \<and> pid (jobs (the (step (Tick True) (the (run bg_then_fg (init_shell False))))) ! 0) = 5
   \<and> state (jobs (the (step (Tick True) (the (run bg_then_fg (init_shell False))))) ! 0) = FG"
  by code_simp


end
